theory Spec2Isabelle
  imports Complex_Main
begin

section \<open>The lexical analyzer of \<^verbatim>\<open>src/exam/lab06.py\<close>\<close>

text \<open>
  The development embeds the class \<^verbatim>\<open>LexicalAnalyzer\<close> of \<^verbatim>\<open>lab06.py\<close>: the
  cursor operations \<^verbatim>\<open>advance\<close> and \<^verbatim>\<open>peek\<close>, the skipping of whitespace and
  comments, the readers of identifiers, numbers, string and character literals, the
  dispatcher \<^verbatim>\<open>get_next_token\<close> and the driver \<^verbatim>\<open>tokenize\<close>.

  Modelling decisions.
  \<^item> The object is a record that every method takes and returns; a method that may
    raise \<^verbatim>\<open>LexicalError\<close> returns a sum together with the state at the raise.
  \<^item> Source characters are HOL characters, classified as Python classifies the ASCII
    range (\<^verbatim>\<open>str.isspace\<close>, \<^verbatim>\<open>isalpha\<close>, \<^verbatim>\<open>isdigit\<close>, \<^verbatim>\<open>isalnum\<close>); the
    model covers ASCII source text.
  \<^item> \<^verbatim>\<open>float(result)\<close> is the exact decimal value as a rational; Python rounds it
    to the nearest binary64, which changes nothing for values such as 5.0.
  \<^item> \<^verbatim>\<open>print\<close> appends a line to the list of printed lines that \<^verbatim>\<open>tokenize\<close>
    returns beside its return value.
\<close>

subsection \<open>Token kinds, tokens, errors\<close>

text \<open>\<^verbatim>\<open>TokenType\<close>; \<open>INT\<close> and \<open>CHAR\<close> are reserved HOL syntax and carry a suffix.\<close>

datatype TokenType =
    IF | ELSE | WHILE | FOR | INT_T | FLOAT | CHAR_T | VOID | RETURN
  | IDENTIFIER | INTEGER | FLOAT_LITERAL | STRING | CHAR_LITERAL
  | PLUS | MINUS | MULTIPLY | DIVIDE | ASSIGN | EQ | NE | LT | GT | LE | GE
  | LPAREN | RPAREN | LBRACE | RBRACE | SEMICOLON | COMMA
  | EOF | ERROR

text \<open>The payload of a token: \<^verbatim>\<open>None\<close>, an \<^verbatim>\<open>int\<close>, a \<^verbatim>\<open>float\<close> or a \<^verbatim>\<open>str\<close>.\<close>

datatype Value = VNone | VInt int | VFloat rat | VStr string

text \<open>\<^verbatim>\<open>Token(type, value, line, column)\<close>.\<close>

datatype Token = Token (tok_type: TokenType) (tok_value: Value) (tok_line: int) (tok_column: int)

text \<open>\<^verbatim>\<open>LexicalError(message, line, column)\<close>.\<close>

datatype LexicalError = LexicalError (message: string) (err_line: int) (err_column: int)

subsection \<open>The analyzer object\<close>

text \<open>An entry of \<^verbatim>\<open>symbol_table\<close>: the dict with keys \<^verbatim>\<open>'first_seen'\<close> and \<^verbatim>\<open>'occurrences'\<close>.\<close>

record entry =
  first_seen :: "int \<times> int"
  occurrences :: "(int \<times> int) list"

record LexicalAnalyzer =
  symbol_table :: "string \<rightharpoonup> entry"
  source :: string
  pos :: nat
  line :: int
  column :: int
  current_char :: "char option"

text \<open>\<^verbatim>\<open>self.keywords\<close> (the name \<open>keywords\<close> is reserved in theory headers) and \<^verbatim>\<open>self.operators\<close>.\<close>

definition keywords_dict :: "string \<rightharpoonup> TokenType" where
  "keywords_dict = map_of
     [(''if'', IF), (''else'', ELSE), (''while'', WHILE), (''for'', FOR), (''int'', INT_T),
      (''float'', FLOAT), (''char'', CHAR_T), (''void'', VOID), (''return'', RETURN)]"

definition operators :: "string \<rightharpoonup> TokenType" where
  "operators = map_of
     [(''+'', PLUS), (''-'', MINUS), (''*'', MULTIPLY), (''/'', DIVIDE), (''='', ASSIGN),
      (''=='', EQ), (''!='', NE), (''<'', LT), (''>'', GT), (''<='', LE), (''>='', GE),
      (''('', LPAREN), ('')'', RPAREN), (''{'', LBRACE), (''}'', RBRACE),
      ('';'', SEMICOLON), ('','', COMMA)]"

text \<open>\<^verbatim>\<open>LexicalAnalyzer()\<close>: the state that \<^verbatim>\<open>__init__\<close> sets up.\<close>

definition new_LexicalAnalyzer :: LexicalAnalyzer where
  "new_LexicalAnalyzer =
     \<lparr>symbol_table = Map.empty, source = [], pos = 0, line = 1, column = 1,
      current_char = None\<rparr>"

subsection \<open>Character classes and number decoding\<close>

definition isspace :: "char \<Rightarrow> bool" where
  "isspace c = (let n = (of_char c :: nat) in (9 \<le> n \<and> n \<le> 13) \<or> (28 \<le> n \<and> n \<le> 32))"

definition isdigit :: "char \<Rightarrow> bool" where
  "isdigit c = (let n = (of_char c :: nat) in 48 \<le> n \<and> n \<le> 57)"

definition isalpha :: "char \<Rightarrow> bool" where
  "isalpha c = (let n = (of_char c :: nat) in (65 \<le> n \<and> n \<le> 90) \<or> (97 \<le> n \<and> n \<le> 122))"

definition isalnum :: "char \<Rightarrow> bool" where
  "isalnum c = (isalpha c \<or> isdigit c)"

text \<open>\<^verbatim>\<open>int(result)\<close> on a string of decimal digits.\<close>

definition py_int :: "string \<Rightarrow> int" where
  "py_int s = foldl (\<lambda>n c. 10 * n + (int (of_char c) - 48)) 0 s"

text \<open>\<^verbatim>\<open>float(result)\<close> on digits with one decimal point, as the exact decimal value.\<close>

definition py_float :: "string \<Rightarrow> rat" where
  "py_float s =
     (let ip = takeWhile (\<lambda>c. c \<noteq> CHR ''.'') s;
          fp = drop 1 (dropWhile (\<lambda>c. c \<noteq> CHR ''.'') s)
      in of_int (py_int ip) + of_int (py_int fp) / 10 ^ length fp)"

text \<open>\<^verbatim>\<open>str(n)\<close> for an integer, used when the error message is formatted.\<close>

fun str_nat :: "nat \<Rightarrow> string" where
  "str_nat n = (if n < 10 then [char_of (48 + n)] else str_nat (n div 10) @ [char_of (48 + n mod 10)])"

declare str_nat.simps [simp del]

definition str_int :: "int \<Rightarrow> string" where
  "str_int i = (if i < 0 then CHR ''-'' # str_nat (nat (- i)) else str_nat (nat i))"

text \<open>\<^verbatim>\<open>str(e)\<close> of a \<^verbatim>\<open>LexicalError\<close>: the argument given to \<^verbatim>\<open>Exception.__init__\<close>.\<close>

definition str_error :: "LexicalError \<Rightarrow> string" where
  "str_error e = message e @ '' at line '' @ str_int (err_line e) @ '', column '' @ str_int (err_column e)"

subsection \<open>The cursor\<close>

definition advance :: "LexicalAnalyzer \<Rightarrow> LexicalAnalyzer" where
  "advance a =
     (if pos a \<ge> length (source a) then a\<lparr>current_char := None\<rparr>
      else a\<lparr>current_char := Some (source a ! pos a), pos := pos a + 1, column := column a + 1\<rparr>)"

definition init_scanner :: "string \<Rightarrow> LexicalAnalyzer \<Rightarrow> LexicalAnalyzer" where
  "init_scanner src a = advance (a\<lparr>source := src, pos := 0, line := 1, column := 1\<rparr>)"

definition peek :: "LexicalAnalyzer \<Rightarrow> char option" where
  "peek a = (if pos a \<ge> length (source a) then None else Some (source a ! pos a))"

text \<open>
  The number of characters still to be consumed, the current one included: the measure
  under which every loop of the scanner terminates.
\<close>

definition left :: "LexicalAnalyzer \<Rightarrow> nat" where
  "left a = (length (source a) - pos a) + (if current_char a = None then 0 else 1)"

lemma left_advance: "current_char a = Some c \<Longrightarrow> left (advance a) < left a"
  by (auto simp: left_def advance_def)

lemma left_advance_line:
  "current_char a = Some c \<Longrightarrow> left (advance (a\<lparr>line := l, column := k\<rparr>)) < left a"
  by (auto simp: left_def advance_def)

lemma left_advance_le: "left (advance a) \<le> left a"
  by (auto simp: left_def advance_def)

subsection \<open>Whitespace and comments\<close>

function skip_whitespace :: "LexicalAnalyzer \<Rightarrow> LexicalAnalyzer" where
  "skip_whitespace a =
     (case current_char a of
        None \<Rightarrow> a
      | Some c \<Rightarrow>
          if isspace c then
            skip_whitespace
              (advance (if c = CHR 0x0A then a\<lparr>line := line a + 1, column := 1\<rparr> else a))
          else a)"
  by pat_completeness auto
termination
  by (relation "measure left") (auto simp: left_advance left_advance_line)

declare skip_whitespace.simps [simp del]

text \<open>The loop of the single-line branch of \<^verbatim>\<open>skip_comment\<close>.\<close>

function skip_comment_single :: "LexicalAnalyzer \<Rightarrow> LexicalAnalyzer" where
  "skip_comment_single a =
     (case current_char a of
        None \<Rightarrow> a
      | Some c \<Rightarrow> if c \<noteq> CHR 0x0A then skip_comment_single (advance a) else a)"
  by pat_completeness auto
termination
  by (relation "measure left") (auto simp: left_advance)

declare skip_comment_single.simps [simp del]

text \<open>The loop of the multi-line branch, entered after the opener has been consumed.\<close>

function skip_comment_multi :: "LexicalAnalyzer \<Rightarrow> LexicalAnalyzer" where
  "skip_comment_multi a =
     (case current_char a of
        None \<Rightarrow> a
      | Some c \<Rightarrow>
          if c = CHR ''*'' \<and> peek a = Some (CHR ''/'') then advance (advance a)
          else skip_comment_multi
                 (advance (if c = CHR 0x0A then a\<lparr>line := line a + 1, column := 1\<rparr> else a)))"
  by pat_completeness auto
termination
  by (relation "measure left") (auto simp: left_advance left_advance_line)

declare skip_comment_multi.simps [simp del]

definition skip_comment :: "LexicalAnalyzer \<Rightarrow> LexicalAnalyzer" where
  "skip_comment a =
     (if current_char a = Some (CHR ''/'') \<and> peek a = Some (CHR ''/'') then skip_comment_single a
      else if current_char a = Some (CHR ''/'') \<and> peek a = Some (CHR ''*'') then
        skip_comment_multi (advance (advance a))
      else a)"

text \<open>One iteration of each loop, as rewrite rules.\<close>

lemma skip_whitespace_None: "current_char a = None \<Longrightarrow> skip_whitespace a = a"
  by (subst skip_whitespace.simps) simp

lemma skip_whitespace_stop:
  "current_char a = Some c \<Longrightarrow> \<not> isspace c \<Longrightarrow> skip_whitespace a = a"
  by (subst skip_whitespace.simps) simp

lemma skip_whitespace_step:
  "current_char a = Some c \<Longrightarrow> isspace c \<Longrightarrow>
   skip_whitespace a =
     skip_whitespace (advance (if c = CHR 0x0A then a\<lparr>line := line a + 1, column := 1\<rparr> else a))"
  by (subst skip_whitespace.simps) simp

lemma skip_comment_single_None: "current_char a = None \<Longrightarrow> skip_comment_single a = a"
  by (subst skip_comment_single.simps) simp

lemma skip_comment_single_stop:
  "current_char a = Some (CHR 0x0A) \<Longrightarrow> skip_comment_single a = a"
  by (subst skip_comment_single.simps) simp

lemma skip_comment_single_step:
  "current_char a = Some c \<Longrightarrow> c \<noteq> CHR 0x0A \<Longrightarrow>
   skip_comment_single a = skip_comment_single (advance a)"
  by (subst skip_comment_single.simps) simp

lemma skip_comment_multi_None: "current_char a = None \<Longrightarrow> skip_comment_multi a = a"
  by (subst skip_comment_multi.simps) simp

lemma skip_comment_multi_stop:
  "current_char a = Some (CHR ''*'') \<Longrightarrow> peek a = Some (CHR ''/'') \<Longrightarrow>
   skip_comment_multi a = advance (advance a)"
  by (subst skip_comment_multi.simps) simp

lemma skip_comment_multi_step:
  "current_char a = Some c \<Longrightarrow> \<not> (c = CHR ''*'' \<and> peek a = Some (CHR ''/'')) \<Longrightarrow>
   skip_comment_multi a =
     skip_comment_multi
       (advance (if c = CHR 0x0A then a\<lparr>line := line a + 1, column := 1\<rparr> else a))"
  by (subst skip_comment_multi.simps) auto

lemma left_skip_whitespace: "left (skip_whitespace a) \<le> left a"
proof (induction a rule: skip_whitespace.induct)
  case (1 a)
  show ?case
  proof (cases "current_char a")
    case None
    then show ?thesis by (simp add: skip_whitespace_None)
  next
    case (Some c)
    show ?thesis
    proof (cases "isspace c")
      case True
      let ?b = "advance (if c = CHR 0x0A then a\<lparr>line := line a + 1, column := 1\<rparr> else a)"
      have "left (skip_whitespace ?b) \<le> left ?b"
        using "1.IH" [OF Some True] .
      moreover have "left ?b < left a"
        using Some by (simp add: left_advance left_advance_line)
      ultimately show ?thesis
        by (simp add: skip_whitespace_step [OF Some True])
    next
      case False
      with Some show ?thesis by (simp add: skip_whitespace_stop)
    qed
  qed
qed

lemma left_skip_whitespace_less:
  assumes "current_char a = Some c" and "isspace c"
  shows "left (skip_whitespace a) < left a"
proof -
  let ?b = "advance (if c = CHR 0x0A then a\<lparr>line := line a + 1, column := 1\<rparr> else a)"
  have "left (skip_whitespace ?b) \<le> left ?b"
    by (rule left_skip_whitespace)
  moreover have "left ?b < left a"
    using assms by (simp add: left_advance left_advance_line)
  ultimately show ?thesis
    by (simp add: skip_whitespace_step [OF assms])
qed

lemma left_skip_comment_single: "left (skip_comment_single a) \<le> left a"
proof (induction a rule: skip_comment_single.induct)
  case (1 a)
  show ?case
  proof (cases "current_char a")
    case None
    then show ?thesis by (simp add: skip_comment_single_None)
  next
    case (Some c)
    show ?thesis
    proof (cases "c = CHR 0x0A")
      case True
      with Some show ?thesis by (simp add: skip_comment_single_stop)
    next
      case False
      have "left (skip_comment_single (advance a)) \<le> left (advance a)"
        using "1.IH" [OF Some False] .
      moreover have "left (advance a) < left a"
        using Some by (rule left_advance)
      ultimately show ?thesis
        by (simp add: skip_comment_single_step [OF Some False])
    qed
  qed
qed

lemma left_skip_comment_multi: "left (skip_comment_multi a) \<le> left a"
proof (induction a rule: skip_comment_multi.induct)
  case (1 a)
  show ?case
  proof (cases "current_char a")
    case None
    then show ?thesis by (simp add: skip_comment_multi_None)
  next
    case (Some c)
    show ?thesis
    proof (cases "c = CHR ''*'' \<and> peek a = Some (CHR ''/'')")
      case True
      have "left (advance (advance a)) \<le> left a"
        using left_advance_le [of "advance a"] left_advance_le [of a] by simp
      then show ?thesis
        using Some True by (simp add: skip_comment_multi_stop)
    next
      case False
      let ?b = "advance (if c = CHR 0x0A then a\<lparr>line := line a + 1, column := 1\<rparr> else a)"
      have "left (skip_comment_multi ?b) \<le> left ?b"
        using "1.IH" [OF Some False] .
      moreover have "left ?b < left a"
        using Some by (simp add: left_advance left_advance_line)
      ultimately show ?thesis
        by (simp add: skip_comment_multi_step [OF Some False])
    qed
  qed
qed

lemma left_skip_comment_less:
  assumes "current_char a = Some (CHR ''/'')"
    and "peek a = Some (CHR ''/'') \<or> peek a = Some (CHR ''*'')"
  shows "left (skip_comment a) < left a"
proof (cases "peek a = Some (CHR ''/'')")
  case True
  have "skip_comment a = skip_comment_single (advance a)"
    using assms(1) True by (simp add: skip_comment_def skip_comment_single_step)
  moreover have "left (skip_comment_single (advance a)) \<le> left (advance a)"
    by (rule left_skip_comment_single)
  moreover have "left (advance a) < left a"
    using assms(1) by (rule left_advance)
  ultimately show ?thesis by simp
next
  case False
  then have "skip_comment a = skip_comment_multi (advance (advance a))"
    using assms by (simp add: skip_comment_def)
  moreover have "left (skip_comment_multi (advance (advance a))) \<le> left (advance (advance a))"
    by (rule left_skip_comment_multi)
  moreover have "left (advance (advance a)) \<le> left (advance a)"
    by (rule left_advance_le)
  moreover have "left (advance a) < left a"
    using assms(1) by (rule left_advance)
  ultimately show ?thesis by simp
qed

subsection \<open>Identifiers and keywords\<close>

text \<open>The \<^verbatim>\<open>while\<close> loop of \<^verbatim>\<open>read_identifier\<close>.\<close>

function read_identifier_loop :: "LexicalAnalyzer \<Rightarrow> string \<Rightarrow> string \<times> LexicalAnalyzer" where
  "read_identifier_loop a result =
     (case current_char a of
        None \<Rightarrow> (result, a)
      | Some c \<Rightarrow>
          if isalnum c \<or> c = CHR ''_'' then read_identifier_loop (advance a) (result @ [c])
          else (result, a))"
  by pat_completeness auto
termination
  by (relation "measure (\<lambda>(a, result). left a)") (auto simp: left_advance)

declare read_identifier_loop.simps [simp del]

text \<open>
  The update of \<^verbatim>\<open>self.symbol_table\<close> for an identifier seen at \<open>loc\<close>: a missing
  entry is created with an empty occurrence list, then \<open>loc\<close> is appended.
\<close>

definition record_identifier ::
  "string \<Rightarrow> int \<times> int \<Rightarrow> (string \<rightharpoonup> entry) \<Rightarrow> (string \<rightharpoonup> entry)" where
  "record_identifier result loc tbl =
     (let tbl1 = (if tbl result = None
                  then tbl(result \<mapsto> \<lparr>first_seen = loc, occurrences = []\<rparr>) else tbl)
      in case tbl1 result of
           None \<Rightarrow> tbl1
         | Some e \<Rightarrow> tbl1(result \<mapsto> e\<lparr>occurrences := occurrences e @ [loc]\<rparr>))"

definition read_identifier :: "LexicalAnalyzer \<Rightarrow> Token \<times> LexicalAnalyzer" where
  "read_identifier a =
     (let start_column = column a;
          (result, a1) = read_identifier_loop a [];
          token_type = (case keywords_dict result of None \<Rightarrow> IDENTIFIER | Some t \<Rightarrow> t);
          token = Token token_type (VStr result) (line a1) start_column
      in if token_type = IDENTIFIER then
           (token, a1\<lparr>symbol_table :=
                        record_identifier result (line a1, start_column) (symbol_table a1)\<rparr>)
         else (token, a1))"

subsection \<open>Numbers\<close>

text \<open>The \<^verbatim>\<open>while\<close> loop of \<^verbatim>\<open>read_number\<close>, with its \<^verbatim>\<open>raise\<close> on a second point.\<close>

function read_number_loop ::
  "LexicalAnalyzer \<Rightarrow> string \<Rightarrow> bool \<Rightarrow> (LexicalError + string \<times> bool) \<times> LexicalAnalyzer" where
  "read_number_loop a result is_float =
     (case current_char a of
        None \<Rightarrow> (Inr (result, is_float), a)
      | Some c \<Rightarrow>
          if isdigit c \<or> c = CHR ''.'' then
            (if c = CHR ''.'' \<and> is_float then
               (Inl (LexicalError ''Invalid float literal'' (line a) (column a)), a)
             else read_number_loop (advance a) (result @ [c]) (is_float \<or> c = CHR ''.''))
          else (Inr (result, is_float), a))"
  by pat_completeness auto
termination
  by (relation "measure (\<lambda>(a, result, is_float). left a)") (auto simp: left_advance)

declare read_number_loop.simps [simp del]

definition read_number :: "LexicalAnalyzer \<Rightarrow> (LexicalError + Token) \<times> LexicalAnalyzer" where
  "read_number a =
     (let start_column = column a in
      case read_number_loop a [] False of
        (Inl e, a1) \<Rightarrow> (Inl e, a1)
      | (Inr (result, is_float), a1) \<Rightarrow>
          if is_float then (Inr (Token FLOAT_LITERAL (VFloat (py_float result)) (line a1) start_column), a1)
          else (Inr (Token INTEGER (VInt (py_int result)) (line a1) start_column), a1))"

subsection \<open>String and character literals\<close>

text \<open>The \<^verbatim>\<open>while\<close> loop of \<^verbatim>\<open>read_string\<close>.\<close>

function read_string_loop ::
  "LexicalAnalyzer \<Rightarrow> string \<Rightarrow> (LexicalError + string) \<times> LexicalAnalyzer" where
  "read_string_loop a result =
     (case current_char a of
        None \<Rightarrow> (Inr result, a)
      | Some c \<Rightarrow>
          if c \<noteq> CHR 0x22 then
            (if c = CHR 0x5C then
               (let a1 = advance a in
                case current_char a1 of
                  None \<Rightarrow> (Inl (LexicalError ''Invalid escape sequence'' (line a1) (column a1)), a1)
                | Some d \<Rightarrow>
                    if d \<in> {CHR ''n'', CHR ''t'', CHR 0x22, CHR 0x5C} then
                      read_string_loop (advance a1) (result @ [CHR 0x5C, d])
                    else (Inl (LexicalError ''Invalid escape sequence'' (line a1) (column a1)), a1))
             else read_string_loop (advance a) (result @ [c]))
          else (Inr result, a))"
  by pat_completeness auto
termination
proof (relation "measure (\<lambda>(a, result). left a)")
  show "wf (measure (\<lambda>(a, result). left a))" by simp
next
  fix a :: LexicalAnalyzer and result :: string and c a1 d
  assume "current_char a = Some c" and "a1 = advance a" and "current_char a1 = Some d"
  then have "left (advance a1) < left a1" and "left a1 < left a"
    by (simp_all add: left_advance)
  then show "((advance a1, result @ [CHR 0x5C, d]), (a, result)) \<in> measure (\<lambda>(a, result). left a)"
    by simp
next
  fix a :: LexicalAnalyzer and result :: string and c
  assume "current_char a = Some c"
  then show "((advance a, result @ [c]), (a, result)) \<in> measure (\<lambda>(a, result). left a)"
    by (simp add: left_advance)
qed

declare read_string_loop.simps [simp del]

definition read_string :: "LexicalAnalyzer \<Rightarrow> (LexicalError + Token) \<times> LexicalAnalyzer" where
  "read_string a =
     (let start_column = column a in
      case read_string_loop (advance a) [] of
        (Inl e, a1) \<Rightarrow> (Inl e, a1)
      | (Inr result, a1) \<Rightarrow>
          if current_char a1 = None then
            (Inl (LexicalError ''Unterminated string literal'' (line a1) start_column), a1)
          else
            (let a2 = advance a1
             in (Inr (Token STRING (VStr result) (line a2) start_column), a2)))"

definition read_char_literal :: "LexicalAnalyzer \<Rightarrow> (LexicalError + Token) \<times> LexicalAnalyzer" where
  "read_char_literal a =
     (let start_column = column a; a1 = advance a in
      case current_char a1 of
        None \<Rightarrow> (Inl (LexicalError ''Unterminated character literal'' (line a1) start_column), a1)
      | Some c \<Rightarrow>
          (let (r, a2) =
                 (if c = CHR 0x5C then
                    (let a2 = advance a1 in
                     case current_char a2 of
                       None \<Rightarrow> (Inl (LexicalError ''Invalid escape sequence'' (line a2) (column a2)), a2)
                     | Some d \<Rightarrow>
                         if d \<in> {CHR ''n'', CHR ''t'', CHR 0x27, CHR 0x5C} then (Inr [CHR 0x5C, d], a2)
                         else (Inl (LexicalError ''Invalid escape sequence'' (line a2) (column a2)), a2))
                  else (Inr [c], a1))
           in case r of
                Inl e \<Rightarrow> (Inl e, a2)
              | Inr v \<Rightarrow>
                  (let a3 = advance a2 in
                   if current_char a3 \<noteq> Some (CHR 0x27) then
                     (Inl (LexicalError ''Unterminated character literal'' (line a3) start_column), a3)
                   else
                     (let a4 = advance a3
                      in (Inr (Token CHAR_LITERAL (VStr v) (line a4) start_column), a4)))))"

subsection \<open>The dispatcher and the driver\<close>

text \<open>
  \<^verbatim>\<open>get_next_token\<close>: each \<^verbatim>\<open>continue\<close> of the \<^verbatim>\<open>while\<close> loop is a recursive call.
  The two subscripts \<^verbatim>\<open>self.operators[op]\<close> are reached only with a key of the dict
  (lemmas \<open>operators_two_chars\<close> and the guard of the single-character branch).
\<close>

function get_next_token :: "LexicalAnalyzer \<Rightarrow> (LexicalError + Token) \<times> LexicalAnalyzer" where
  "get_next_token a =
     (case current_char a of
        None \<Rightarrow> (Inr (Token EOF VNone (line a) (column a)), a)
      | Some c \<Rightarrow>
          if isspace c then get_next_token (skip_whitespace a)
          else if c = CHR ''/'' \<and> (peek a = Some (CHR ''/'') \<or> peek a = Some (CHR ''*'')) then
            get_next_token (skip_comment a)
          else if isalpha c \<or> c = CHR ''_'' then
            (case read_identifier a of (token, a1) \<Rightarrow> (Inr token, a1))
          else if isdigit c then read_number a
          else if c = CHR 0x22 then read_string a
          else if c = CHR 0x27 then read_char_literal a
          else if c \<in> {CHR ''='', CHR ''!'', CHR ''<'', CHR ''>''} \<and> peek a = Some (CHR ''='') then
            (let op = [c, CHR ''='']; a1 = advance (advance a)
             in (Inr (Token (the (operators op)) (VStr op) (line a1) (column a1 - int (length op))), a1))
          else if operators [c] \<noteq> None then
            (let a1 = advance a
             in (Inr (Token (the (operators [c])) (VStr [c]) (line a1) (column a1 - 1)), a1))
          else (Inl (LexicalError (''Invalid character: '' @ [c]) (line a) (column a)), a))"
  by pat_completeness auto
termination
  by (relation "measure left") (auto simp: left_skip_whitespace_less left_skip_comment_less)

declare get_next_token.simps [simp del]

lemma operators_two_chars:
  "c \<in> {CHR ''='', CHR ''!'', CHR ''<'', CHR ''>''} \<Longrightarrow> operators [c, CHR ''=''] \<noteq> None"
  by (auto simp: operators_def)


lemma read_identifier_loop_None:
  "current_char a = None \<Longrightarrow> read_identifier_loop a result = (result, a)"
  by (subst read_identifier_loop.simps) simp

lemma read_identifier_loop_stop:
  "current_char a = Some c \<Longrightarrow> \<not> (isalnum c \<or> c = CHR ''_'') \<Longrightarrow>
   read_identifier_loop a result = (result, a)"
  by (subst read_identifier_loop.simps) simp

lemma read_identifier_loop_step:
  "current_char a = Some c \<Longrightarrow> isalnum c \<or> c = CHR ''_'' \<Longrightarrow>
   read_identifier_loop a result = read_identifier_loop (advance a) (result @ [c])"
  by (subst read_identifier_loop.simps) simp

lemma read_number_loop_None:
  "current_char a = None \<Longrightarrow> read_number_loop a result is_float = (Inr (result, is_float), a)"
  by (subst read_number_loop.simps) simp

lemma read_number_loop_stop:
  "current_char a = Some c \<Longrightarrow> \<not> (isdigit c \<or> c = CHR ''.'') \<Longrightarrow>
   read_number_loop a result is_float = (Inr (result, is_float), a)"
  by (subst read_number_loop.simps) simp

lemma read_number_loop_raise:
  "current_char a = Some (CHR ''.'') \<Longrightarrow>
   read_number_loop a result True =
     (Inl (LexicalError ''Invalid float literal'' (line a) (column a)), a)"
  by (subst read_number_loop.simps) simp

lemma read_number_loop_step:
  "current_char a = Some c \<Longrightarrow> isdigit c \<or> c = CHR ''.'' \<Longrightarrow> \<not> (c = CHR ''.'' \<and> is_float) \<Longrightarrow>
   read_number_loop a result is_float =
     read_number_loop (advance a) (result @ [c]) (is_float \<or> c = CHR ''.'')"
  by (subst read_number_loop.simps) auto

lemma read_string_loop_None:
  "current_char a = None \<Longrightarrow> read_string_loop a result = (Inr result, a)"
  by (subst read_string_loop.simps) simp

lemma read_string_loop_stop:
  "current_char a = Some (CHR 0x22) \<Longrightarrow> read_string_loop a result = (Inr result, a)"
  by (subst read_string_loop.simps) simp

lemma read_string_loop_step:
  "current_char a = Some c \<Longrightarrow> c \<noteq> CHR 0x22 \<Longrightarrow> c \<noteq> CHR 0x5C \<Longrightarrow>
   read_string_loop a result = read_string_loop (advance a) (result @ [c])"
  by (subst read_string_loop.simps) simp

lemma read_string_loop_escape:
  "current_char a = Some (CHR 0x5C) \<Longrightarrow> current_char (advance a) = Some d \<Longrightarrow>
   d \<in> {CHR ''n'', CHR ''t'', CHR 0x22, CHR 0x5C} \<Longrightarrow>
   read_string_loop a result = read_string_loop (advance (advance a)) (result @ [CHR 0x5C, d])"
  by (subst read_string_loop.simps) (simp add: Let_def)

lemma read_string_loop_raise:
  "current_char a = Some (CHR 0x5C) \<Longrightarrow>
   (\<forall>d. current_char (advance a) = Some d \<longrightarrow> d \<notin> {CHR ''n'', CHR ''t'', CHR 0x22, CHR 0x5C}) \<Longrightarrow>
   read_string_loop a result =
     (Inl (LexicalError ''Invalid escape sequence'' (line (advance a)) (column (advance a))),
      advance a)"
  by (subst read_string_loop.simps) (auto simp: Let_def split: option.splits)

lemma left_read_identifier_loop: "left (snd (read_identifier_loop a result)) \<le> left a"
proof (induction a result rule: read_identifier_loop.induct)
  case (1 a result)
  show ?case
  proof (cases "current_char a")
    case None
    then show ?thesis by (simp add: read_identifier_loop_None)
  next
    case (Some c)
    show ?thesis
    proof (cases "isalnum c \<or> c = CHR ''_''")
      case True
      have "left (snd (read_identifier_loop (advance a) (result @ [c]))) \<le> left (advance a)"
        using "1.IH" [OF Some True] .
      moreover have "left (advance a) < left a"
        using Some by (rule left_advance)
      ultimately show ?thesis
        by (simp add: read_identifier_loop_step [OF Some True])
    next
      case False
      with Some show ?thesis by (simp add: read_identifier_loop_stop)
    qed
  qed
qed

lemma left_read_identifier:
  assumes "current_char a = Some c" and "isalpha c \<or> c = CHR ''_''"
  shows "left (snd (read_identifier a)) < left a"
proof -
  have "isalnum c \<or> c = CHR ''_''"
    using assms(2) by (auto simp: isalnum_def)
  then have step: "read_identifier_loop a [] = read_identifier_loop (advance a) [c]"
    using read_identifier_loop_step [OF assms(1), of "[]"] by simp
  have "left (snd (read_identifier_loop (advance a) [c])) \<le> left (advance a)"
    by (rule left_read_identifier_loop)
  moreover have "left (advance a) < left a"
    using assms(1) by (rule left_advance)
  ultimately have "left (snd (read_identifier_loop a [])) < left a"
    using step by simp
  moreover have "left (snd (read_identifier a)) = left (snd (read_identifier_loop a []))"
    by (simp add: read_identifier_def Let_def left_def split: prod.splits)
  ultimately show ?thesis by simp
qed

lemma left_read_number_loop: "left (snd (read_number_loop a result is_float)) \<le> left a"
proof (induction a result is_float rule: read_number_loop.induct)
  case (1 a result is_float)
  show ?case
  proof (cases "current_char a")
    case None
    then show ?thesis by (simp add: read_number_loop_None)
  next
    case (Some c)
    show ?thesis
    proof (cases "isdigit c \<or> c = CHR ''.''")
      case d: True
      show ?thesis
      proof (cases "c = CHR ''.'' \<and> is_float")
        case True
        with Some show ?thesis by (simp add: read_number_loop_raise)
      next
        case nf: False
        have "left (snd (read_number_loop (advance a) (result @ [c]) (is_float \<or> c = CHR ''.'')))
                \<le> left (advance a)"
          using "1.IH" [OF Some d nf] .
        moreover have "left (advance a) < left a"
          using Some by (rule left_advance)
        ultimately show ?thesis
          by (simp add: read_number_loop_step [OF Some d nf])
      qed
    next
      case False
      with Some show ?thesis by (simp add: read_number_loop_stop)
    qed
  qed
qed

lemma left_read_number:
  assumes "current_char a = Some c" and "isdigit c"
  shows "left (snd (read_number a)) < left a"
proof -
  have "c \<noteq> CHR ''.''"
    using assms(2) by (auto simp: isdigit_def)
  then have step: "read_number_loop a [] False = read_number_loop (advance a) [c] False"
    using read_number_loop_step [OF assms(1), of False "[]"] assms(2) by simp
  have "left (snd (read_number_loop (advance a) [c] False)) \<le> left (advance a)"
    by (rule left_read_number_loop)
  moreover have "left (advance a) < left a"
    using assms(1) by (rule left_advance)
  ultimately have "left (snd (read_number_loop a [] False)) < left a"
    using step by simp
  moreover have "snd (read_number a) = snd (read_number_loop a [] False)"
    by (simp add: read_number_def Let_def split: prod.splits sum.splits)
  ultimately show ?thesis by simp
qed

lemma left_read_string_loop: "left (snd (read_string_loop a result)) \<le> left a"
proof (induction a result rule: read_string_loop.induct)
  case (1 a result)
  show ?case
  proof (cases "current_char a")
    case None
    then show ?thesis by (simp add: read_string_loop_None)
  next
    case (Some c)
    have adv: "left (advance a) < left a"
      using Some by (rule left_advance)
    show ?thesis
    proof (cases "c = CHR 0x22")
      case True
      with Some show ?thesis by (simp add: read_string_loop_stop)
    next
      case nq: False
      show ?thesis
      proof (cases "c = CHR 0x5C")
        case bs: True
        show ?thesis
        proof (cases "\<exists>d. current_char (advance a) = Some d
                         \<and> d \<in> {CHR ''n'', CHR ''t'', CHR 0x22, CHR 0x5C}")
          case True
          then obtain d where d: "current_char (advance a) = Some d"
            and dm: "d \<in> {CHR ''n'', CHR ''t'', CHR 0x22, CHR 0x5C}" by blast
          have "left (snd (read_string_loop (advance (advance a)) (result @ [CHR 0x5C, d])))
                  \<le> left (advance (advance a))"
            using "1.IH"(1) [OF Some nq bs refl d dm] .
          moreover have "left (advance (advance a)) \<le> left (advance a)"
            by (rule left_advance_le)
          moreover have "read_string_loop a result
                       = read_string_loop (advance (advance a)) (result @ [CHR 0x5C, d])"
            using Some bs d dm by (simp add: read_string_loop_escape)
          ultimately show ?thesis using adv by simp
        next
          case False
          then have "read_string_loop a result
                 = (Inl (LexicalError ''Invalid escape sequence'' (line (advance a)) (column (advance a))), advance a)"
            using Some bs by (intro read_string_loop_raise) auto
          with adv show ?thesis by simp
        qed
      next
        case nb: False
        have "left (snd (read_string_loop (advance a) (result @ [c]))) \<le> left (advance a)"
          using "1.IH"(2) [OF Some nq nb] .
        then show ?thesis
          using adv by (simp add: read_string_loop_step [OF Some nq nb])
      qed
    qed
  qed
qed

lemma left_read_string:
  assumes "current_char a = Some c"
  shows "left (snd (read_string a)) < left a"
proof -
  have adv: "left (advance a) < left a"
    using assms by (rule left_advance)
  have loop: "left (snd (read_string_loop (advance a) [])) \<le> left (advance a)"
    by (rule left_read_string_loop)
  obtain r a1 where r: "read_string_loop (advance a) [] = (r, a1)"
    by (cases "read_string_loop (advance a) []")
  with loop have a1: "left a1 \<le> left (advance a)" by simp
  have "left (advance a1) \<le> left a1"
    by (rule left_advance_le)
  with a1 adv show ?thesis
    by (auto simp: read_string_def Let_def r split: sum.splits)
qed

lemma left_read_char_literal:
  assumes "current_char a = Some c"
  shows "left (snd (read_char_literal a)) < left a"
proof -
  have adv: "left (advance a) < left a"
    using assms by (rule left_advance)
  have a2: "left (advance (advance a)) \<le> left (advance a)"
    by (rule left_advance_le)
  have a3: "left (advance (advance (advance a))) \<le> left (advance (advance a))"
    by (rule left_advance_le)
  have a4: "left (advance (advance (advance (advance a)))) \<le> left (advance (advance (advance a)))"
    by (rule left_advance_le)
  show ?thesis
    using adv a2 a3 a4
    by (auto simp: read_char_literal_def Let_def split: option.splits)
qed

text \<open>The branches of \<^verbatim>\<open>get_next_token\<close> as rewrite rules.\<close>

lemma get_next_token_None:
  "current_char a = None \<Longrightarrow>
   get_next_token a = (Inr (Token EOF VNone (line a) (column a)), a)"
  by (subst get_next_token.simps) simp

lemma get_next_token_space:
  "current_char a = Some c \<Longrightarrow> isspace c \<Longrightarrow>
   get_next_token a = get_next_token (skip_whitespace a)"
  by (subst get_next_token.simps) simp

lemma get_next_token_comment:
  "current_char a = Some (CHR ''/'') \<Longrightarrow>
   peek a = Some (CHR ''/'') \<or> peek a = Some (CHR ''*'') \<Longrightarrow>
   get_next_token a = get_next_token (skip_comment a)"
  by (subst get_next_token.simps) (simp add: isspace_def)

lemma get_next_token_lexeme:
  "current_char a = Some c \<Longrightarrow> \<not> isspace c \<Longrightarrow>
   \<not> (c = CHR ''/'' \<and> (peek a = Some (CHR ''/'') \<or> peek a = Some (CHR ''*''))) \<Longrightarrow>
   get_next_token a =
     (if isalpha c \<or> c = CHR ''_'' then
        (case read_identifier a of (token, a1) \<Rightarrow> (Inr token, a1))
      else if isdigit c then read_number a
      else if c = CHR 0x22 then read_string a
      else if c = CHR 0x27 then read_char_literal a
      else if c \<in> {CHR ''='', CHR ''!'', CHR ''<'', CHR ''>''} \<and> peek a = Some (CHR ''='') then
        (let op = [c, CHR ''='']; a1 = advance (advance a)
         in (Inr (Token (the (operators op)) (VStr op) (line a1) (column a1 - int (length op))), a1))
      else if operators [c] \<noteq> None then
        (let a1 = advance a
         in (Inr (Token (the (operators [c])) (VStr [c]) (line a1) (column a1 - 1)), a1))
      else (Inl (LexicalError (''Invalid character: '' @ [c]) (line a) (column a)), a))"
  by (subst get_next_token.simps) auto

lemma left_get_next_token:
  "get_next_token a = (Inr token, a1) \<Longrightarrow> tok_type token \<noteq> EOF \<Longrightarrow> left a1 < left a"
proof (induction a rule: get_next_token.induct)
  case (1 a)
  show ?case
  proof (cases "current_char a")
    case None
    with "1.prems" show ?thesis by (auto simp: get_next_token_None)
  next
    case (Some c)
    show ?thesis
    proof (cases "isspace c")
      case True
      have "get_next_token (skip_whitespace a) = (Inr token, a1)"
        using "1.prems"(1) by (simp add: get_next_token_space [OF Some True])
      then have "left a1 < left (skip_whitespace a)"
        using "1.IH"(1) [OF Some True] "1.prems"(2) by simp
      then show ?thesis
        using left_skip_whitespace [of a] by simp
    next
      case ns: False
      show ?thesis
      proof (cases "c = CHR ''/'' \<and> (peek a = Some (CHR ''/'') \<or> peek a = Some (CHR ''*''))")
        case True
        then have c: "current_char a = Some (CHR ''/'')"
          and pk: "peek a = Some (CHR ''/'') \<or> peek a = Some (CHR ''*'')"
          using Some by simp_all
        have "get_next_token (skip_comment a) = (Inr token, a1)"
          using "1.prems"(1) by (simp add: get_next_token_comment [OF c pk])
        then have "left a1 < left (skip_comment a)"
          using "1.IH"(2) [OF Some ns True] "1.prems"(2) by simp
        then show ?thesis
          using left_skip_comment_less [OF c pk] by simp
      next
        case nc: False
        have adv: "left (advance a) < left a"
          using Some by (rule left_advance)
        have adv2: "left (advance (advance a)) \<le> left (advance a)"
          by (rule left_advance_le)
        note eq = get_next_token_lexeme [OF Some ns nc]
        consider (ident) "isalpha c \<or> c = CHR ''_''"
          | (num) "\<not> (isalpha c \<or> c = CHR ''_'')" "isdigit c"
          | (str) "\<not> (isalpha c \<or> c = CHR ''_'')" "\<not> isdigit c" "c = CHR 0x22"
          | (chr) "\<not> (isalpha c \<or> c = CHR ''_'')" "\<not> isdigit c" "c \<noteq> CHR 0x22" "c = CHR 0x27"
          | (op) "\<not> (isalpha c \<or> c = CHR ''_'')" "\<not> isdigit c" "c \<noteq> CHR 0x22" "c \<noteq> CHR 0x27"
          by blast
        then show ?thesis
        proof cases
          case ident
          then have "a1 = snd (read_identifier a)"
            using "1.prems"(1) eq by (auto split: prod.splits)
          then show ?thesis
            using left_read_identifier [OF Some ident] by simp
        next
          case num
          then have "a1 = snd (read_number a)"
            using "1.prems"(1) eq by (metis snd_conv)
          then show ?thesis
            using left_read_number [OF Some num(2)] by simp
        next
          case str
          then have "a1 = snd (read_string a)"
            using "1.prems"(1) eq by (metis snd_conv)
          then show ?thesis
            using left_read_string [OF Some] by simp
        next
          case chr
          then have "a1 = snd (read_char_literal a)"
            using "1.prems"(1) eq by (metis snd_conv)
          then show ?thesis
            using left_read_char_literal [OF Some] by simp
        next
          case op
          then have "a1 = advance (advance a) \<or> a1 = advance a"
            using "1.prems"(1) eq by (auto simp: Let_def split: if_splits)
          then show ?thesis
            using adv adv2 by auto
        qed
      qed
    qed
  qed
qed

text \<open>The \<^verbatim>\<open>while True\<close> loop of \<^verbatim>\<open>tokenize\<close>, inside its \<^verbatim>\<open>try\<close>.\<close>

function tokenize_loop ::
  "LexicalAnalyzer \<Rightarrow> Token list \<Rightarrow> (LexicalError + Token list) \<times> LexicalAnalyzer" where
  "tokenize_loop a tokens =
     (case get_next_token a of
        (Inl e, a1) \<Rightarrow> (Inl e, a1)
      | (Inr token, a1) \<Rightarrow>
          if tok_type token = EOF then (Inr (tokens @ [token]), a1)
          else tokenize_loop a1 (tokens @ [token]))"
  by pat_completeness auto
termination
  by (relation "measure (\<lambda>(a, tokens). left a)") (auto dest: left_get_next_token [OF sym])

declare tokenize_loop.simps [simp del]

text \<open>
  \<^verbatim>\<open>tokenize\<close>: the returned token list, the lines printed, and the analyzer afterwards.
  The \<^verbatim>\<open>except\<close> clause prints the error and returns the empty list.
\<close>

definition tokenize :: "string \<Rightarrow> LexicalAnalyzer \<Rightarrow> Token list \<times> string list \<times> LexicalAnalyzer" where
  "tokenize src a =
     (case tokenize_loop (init_scanner src a) [] of
        (Inl e, a1) \<Rightarrow> ([], [''Lexical Error: '' @ str_error e], a1)
      | (Inr tokens, a1) \<Rightarrow> (tokens, [], a1))"

text \<open>The three ways an iteration of the loop of \<^verbatim>\<open>tokenize\<close> ends.\<close>

lemma tokenize_loop_raise:
  "get_next_token a = (Inl e, a1) \<Longrightarrow> tokenize_loop a tokens = (Inl e, a1)"
  by (subst tokenize_loop.simps) simp

lemma tokenize_loop_EOF:
  "get_next_token a = (Inr token, a1) \<Longrightarrow> tok_type token = EOF \<Longrightarrow>
   tokenize_loop a tokens = (Inr (tokens @ [token]), a1)"
  by (subst tokenize_loop.simps) simp

lemma tokenize_loop_step:
  "get_next_token a = (Inr token, a1) \<Longrightarrow> tok_type token \<noteq> EOF \<Longrightarrow>
   tokenize_loop a tokens = tokenize_loop a1 (tokens @ [token])"
  by (subst tokenize_loop.simps) simp

section \<open>The remaining input\<close>

text \<open>
  The characters the scanner has not consumed yet: the current character followed by the
  source from \<open>pos\<close> on. Every loop of the scanner is described by what it does to
  this string.
\<close>

definition rest :: "LexicalAnalyzer \<Rightarrow> string" where
  "rest a = (case current_char a of None \<Rightarrow> [] | Some c \<Rightarrow> c # drop (pos a) (source a))"

text \<open>The text after the first closer \<open>*/\<close>, empty when there is none.\<close>

fun after_close :: "string \<Rightarrow> string" where
  "after_close [] = []"
| "after_close [c] = []"
| "after_close (c # d # s) = (if c = CHR ''*'' \<and> d = CHR ''/'' then s else after_close (d # s))"

fun has_close :: "string \<Rightarrow> bool" where
  "has_close [] = False"
| "has_close [c] = False"
| "has_close (c # d # s) = ((c = CHR ''*'' \<and> d = CHR ''/'') \<or> has_close (d # s))"

text \<open>
  Text made of whitespace and well-formed comments only: single-line comments, ended by
  a newline or by the end of the input, and multi-line comments closed by the first
  \<open>*/\<close> after their opener.
\<close>

inductive blank_text :: "string \<Rightarrow> bool" where
  blank_Nil: "blank_text []"
| blank_space: "isspace c \<Longrightarrow> blank_text s \<Longrightarrow> blank_text (c # s)"
| blank_line_comment:
    "CHR 0x0A \<notin> set body \<Longrightarrow> blank_text s \<Longrightarrow> blank_text (''//'' @ body @ CHR 0x0A # s)"
| blank_last_line_comment:
    "CHR 0x0A \<notin> set body \<Longrightarrow> blank_text (''//'' @ body)"
| blank_block_comment:
    "\<not> has_close body \<Longrightarrow> blank_text s \<Longrightarrow> blank_text (''/*'' @ body @ ''*/'' @ s)"

lemma rest_None: "current_char a = None \<Longrightarrow> rest a = []"
  by (simp add: rest_def)

lemma rest_Nil_iff: "rest a = [] \<longleftrightarrow> current_char a = None"
  by (simp add: rest_def split: option.splits)

lemma rest_current: "rest a = c # r \<Longrightarrow> current_char a = Some c"
  by (auto simp: rest_def split: option.splits)

lemma current_rest: "current_char a = Some c \<Longrightarrow> \<exists>r. rest a = c # r"
  by (simp add: rest_def)

lemma rest_advance: "rest a = c # r \<Longrightarrow> rest (advance a) = r"
  by (auto simp: rest_def advance_def Cons_nth_drop_Suc split: option.splits)

lemma rest_peek: "rest a = c # r \<Longrightarrow> peek a = (case r of [] \<Rightarrow> None | d # _ \<Rightarrow> Some d)"
  by (auto simp: rest_def peek_def hd_drop_conv_nth split: option.splits list.splits
           dest: arg_cong [where f = hd])

lemma rest_line_column [simp]: "rest (a\<lparr>line := l, column := k\<rparr>) = rest a"
  by (simp add: rest_def split: option.splits)

lemma rest_symbol_table [simp]: "rest (a\<lparr>symbol_table := t\<rparr>) = rest a"
  by (simp add: rest_def split: option.splits)

lemma rest_init_scanner: "rest (init_scanner src a) = src"
  by (cases src) (simp_all add: rest_def init_scanner_def advance_def drop_Suc)

lemma rest_skip_whitespace: "rest a = s \<Longrightarrow> rest (skip_whitespace a) = dropWhile isspace s"
proof (induction s arbitrary: a)
  case Nil
  then show ?case by (simp add: rest_Nil_iff skip_whitespace_None)
next
  case (Cons c r)
  have cur: "current_char a = Some c"
    using Cons.prems by (rule rest_current)
  show ?case
  proof (cases "isspace c")
    case True
    let ?b = "advance (if c = CHR 0x0A then a\<lparr>line := line a + 1, column := 1\<rparr> else a)"
    have "rest ?b = r"
      using Cons.prems by (auto intro: rest_advance)
    then have "rest (skip_whitespace ?b) = dropWhile isspace r"
      by (rule Cons.IH)
    then show ?thesis
      using True by (simp add: skip_whitespace_step [OF cur True])
  next
    case False
    then show ?thesis
      using Cons.prems by (simp add: skip_whitespace_stop [OF cur False])
  qed
qed

lemma rest_skip_comment_single:
  "rest a = s \<Longrightarrow> rest (skip_comment_single a) = dropWhile (\<lambda>c. c \<noteq> CHR 0x0A) s"
proof (induction s arbitrary: a)
  case Nil
  then show ?case by (simp add: rest_Nil_iff skip_comment_single_None)
next
  case (Cons c r)
  have cur: "current_char a = Some c"
    using Cons.prems by (rule rest_current)
  show ?case
  proof (cases "c = CHR 0x0A")
    case True
    then show ?thesis
      using Cons.prems cur by (simp add: skip_comment_single_stop)
  next
    case False
    have "rest (advance a) = r"
      using Cons.prems by (rule rest_advance)
    then have "rest (skip_comment_single (advance a)) = dropWhile (\<lambda>c. c \<noteq> CHR 0x0A) r"
      by (rule Cons.IH)
    then show ?thesis
      using False by (simp add: skip_comment_single_step [OF cur False])
  qed
qed

lemma rest_skip_comment_multi: "rest a = s \<Longrightarrow> rest (skip_comment_multi a) = after_close s"
proof (induction s arbitrary: a rule: after_close.induct)
  case (3 c d s)
  have cur: "current_char a = Some c"
    using "3.prems" by (rule rest_current)
  have pk: "peek a = Some d"
    using rest_peek [OF "3.prems"] by simp
  show ?case
  proof (cases "c = CHR ''*'' \<and> d = CHR ''/''")
    case True
    have "rest (advance (advance a)) = s"
      using "3.prems" by (blast intro: rest_advance)
    then show ?thesis
      using True cur pk by (simp add: skip_comment_multi_stop)
  next
    case False
    let ?b = "advance (if c = CHR 0x0A then a\<lparr>line := line a + 1, column := 1\<rparr> else a)"
    have nc: "\<not> (c = CHR ''*'' \<and> peek a = Some (CHR ''/''))"
      using False pk by simp
    have "rest ?b = d # s"
      using "3.prems" by (auto intro: rest_advance)
    then have "rest (skip_comment_multi ?b) = after_close (d # s)"
      using "3.IH" False by blast
    then show ?thesis
      using False by (auto simp: skip_comment_multi_step [OF cur nc])
  qed
next
  case 1
  then show ?case by (simp add: rest_Nil_iff skip_comment_multi_None)
next
  case (2 c)
  have cur: "current_char a = Some c"
    using "2.prems" by (rule rest_current)
  have pk: "peek a = None"
    using rest_peek [OF "2.prems"] by simp
  let ?b = "advance (if c = CHR 0x0A then a\<lparr>line := line a + 1, column := 1\<rparr> else a)"
  have nc: "\<not> (c = CHR ''*'' \<and> peek a = Some (CHR ''/''))"
    using pk by simp
  have "rest ?b = []"
    using "2.prems" by (auto intro: rest_advance)
  then have "skip_comment_multi ?b = ?b"
    by (simp add: rest_Nil_iff skip_comment_multi_None)
  then show ?case
    using \<open>rest ?b = []\<close> by (simp add: skip_comment_multi_step [OF cur nc])
qed

lemma rest_skip_comment_line:
  "rest a = CHR ''/'' # CHR ''/'' # s \<Longrightarrow>
   rest (skip_comment a) = dropWhile (\<lambda>c. c \<noteq> CHR 0x0A) s"
proof -
  assume r: "rest a = CHR ''/'' # CHR ''/'' # s"
  have "current_char a = Some (CHR ''/'')" and "peek a = Some (CHR ''/'')"
    using rest_current [OF r] rest_peek [OF r] by simp_all
  then have "skip_comment a = skip_comment_single a"
    by (simp add: skip_comment_def)
  then show ?thesis
    using rest_skip_comment_single [OF r] by simp
qed

lemma rest_skip_comment_block:
  "rest a = CHR ''/'' # CHR ''*'' # s \<Longrightarrow> rest (skip_comment a) = after_close s"
proof -
  assume r: "rest a = CHR ''/'' # CHR ''*'' # s"
  have "current_char a = Some (CHR ''/'')" and "peek a = Some (CHR ''*'')"
    using rest_current [OF r] rest_peek [OF r] by simp_all
  then have "skip_comment a = skip_comment_multi (advance (advance a))"
    by (simp add: skip_comment_def)
  moreover have "rest (advance (advance a)) = s"
    using r by (blast intro: rest_advance)
  ultimately show ?thesis
    using rest_skip_comment_multi by simp
qed

subsection \<open>Blank text is skipped\<close>

lemma not_isspace_slash: "\<not> isspace (CHR ''/'')"
  by (simp add: isspace_def)

lemma isspace_newline: "isspace (CHR 0x0A)"
  by (simp add: isspace_def)

lemma after_close_body: "\<not> has_close body \<Longrightarrow> after_close (body @ ''*/'' @ s) = s"
proof (induction body rule: has_close.induct)
  case 1
  then show ?case by simp
next
  case (2 c)
  then show ?case by simp
next
  case (3 c d s')
  then show ?case by auto
qed

lemma blank_text_space_inv:
  assumes "blank_text (c # s)" and "isspace c"
  shows "blank_text s"
  using assms by (cases rule: blank_text.cases) (auto simp: not_isspace_slash)

lemma blank_text_dropWhile: "blank_text s \<Longrightarrow> blank_text (dropWhile isspace s)"
  by (induction s) (auto dest: blank_text_space_inv)

lemma blank_text_line_inv:
  assumes "blank_text (CHR ''/'' # CHR ''/'' # s)"
  shows "blank_text (dropWhile (\<lambda>c. c \<noteq> CHR 0x0A) s)"
  using assms
proof (cases rule: blank_text.cases)
  case blank_space
  then show ?thesis by (simp add: not_isspace_slash)
next
  case (blank_line_comment body s')
  then have "dropWhile (\<lambda>c. c \<noteq> CHR 0x0A) s = CHR 0x0A # s'"
    by (auto simp: dropWhile_append3)
  then show ?thesis
    using blank_line_comment(3) by (simp add: blank_text.blank_space isspace_newline)
next
  case (blank_last_line_comment body)
  then have "dropWhile (\<lambda>c. c \<noteq> CHR 0x0A) s = []"
    by auto
  then show ?thesis by (simp only: blank_Nil)
next
  case (blank_block_comment body s')
  then show ?thesis by simp
qed

lemma blank_text_block_inv:
  assumes "blank_text (CHR ''/'' # CHR ''*'' # s)"
  shows "blank_text (after_close s)"
  using assms
proof (cases rule: blank_text.cases)
  case blank_space
  then show ?thesis by (simp add: not_isspace_slash)
next
  case (blank_line_comment body s')
  then show ?thesis by simp
next
  case (blank_last_line_comment body)
  then show ?thesis by simp
next
  case (blank_block_comment body s')
  then have "after_close s = s'"
    using after_close_body [of body s'] by simp
  then show ?thesis
    using blank_block_comment(3) by simp
qed

lemma blank_text_head:
  assumes "blank_text (c # s)"
  shows "isspace c \<or> (c = CHR ''/'' \<and> (\<exists>r. s = CHR ''/'' # r \<or> s = CHR ''*'' # r))"
  using assms by (cases rule: blank_text.cases) auto

lemma get_next_token_blank:
  "blank_text (rest a) \<Longrightarrow>
   \<exists>a1. get_next_token a = (Inr (Token EOF VNone (line a1) (column a1)), a1)"
proof (induction a rule: get_next_token.induct)
  case (1 a)
  show ?case
  proof (cases "rest a")
    case Nil
    then show ?thesis
      by (simp add: rest_Nil_iff get_next_token_None)
  next
    case (Cons c s)
    have cur: "current_char a = Some c"
      using Cons by (rule rest_current)
    have bl: "blank_text (c # s)"
      using "1.prems" Cons by simp
    show ?thesis
    proof (cases "isspace c")
      case True
      have "blank_text (rest (skip_whitespace a))"
        using blank_text_dropWhile [OF bl] rest_skip_whitespace [OF Cons] by simp
      then show ?thesis
        using "1.IH"(1) [OF cur True] by (simp add: get_next_token_space [OF cur True])
    next
      case False
      then obtain r where c: "c = CHR ''/''" and s: "s = CHR ''/'' # r \<or> s = CHR ''*'' # r"
        using blank_text_head [OF bl] by blast
      have pk: "peek a = Some (CHR ''/'') \<or> peek a = Some (CHR ''*'')"
        using rest_peek [OF Cons] s by auto
      have "blank_text (rest (skip_comment a))"
      proof (cases "s = CHR ''/'' # r")
        case True
        then show ?thesis
          using rest_skip_comment_line [of a r] blank_text_line_inv [of r] bl Cons c by simp
      next
        case False
        then have "s = CHR ''*'' # r" using s by simp
        then show ?thesis
          using rest_skip_comment_block [of a r] blank_text_block_inv [of r] bl Cons c by simp
      qed
      then show ?thesis
        using "1.IH"(2) [OF cur False] c pk cur
        by (simp add: get_next_token_comment)
    qed
  qed
qed

subsection \<open>What \<^verbatim>\<open>advance\<close> keeps\<close>

lemma line_advance [simp]: "line (advance a) = line a"
  by (simp add: advance_def)

lemma symbol_table_advance [simp]: "symbol_table (advance a) = symbol_table a"
  by (simp add: advance_def)

lemma source_advance [simp]: "source (advance a) = source a"
  by (simp add: advance_def)

lemma column_advance:
  "rest a = c # r \<Longrightarrow> column (advance a) = (if r = [] then column a else column a + 1)"
  by (auto simp: rest_def advance_def split: option.splits)


subsection \<open>Runs of digits and of plain string characters\<close>

lemma isdigit_class:
  "isdigit c \<Longrightarrow> \<not> isspace c \<and> \<not> isalpha c \<and> c \<noteq> CHR ''/'' \<and> c \<noteq> CHR ''_'' \<and> c \<noteq> CHR ''.''"
  by (auto simp: isdigit_def isspace_def isalpha_def Let_def)


lemma read_string_loop_plain:
  "\<forall>c\<in>set body. c \<noteq> CHR 0x22 \<and> c \<noteq> CHR 0x5C \<Longrightarrow> rest a = body @ s \<Longrightarrow>
   \<exists>a'. read_string_loop a result = read_string_loop a' (result @ body)
        \<and> rest a' = s \<and> line a' = line a \<and> symbol_table a' = symbol_table a"
proof (induction body arbitrary: a result)
  case Nil
  then show ?case by auto
next
  case (Cons c body)
  have cur: "current_char a = Some c"
    using Cons.prems(2) by (simp add: rest_current)
  have nq: "c \<noteq> CHR 0x22" and nb: "c \<noteq> CHR 0x5C"
    and plain: "\<forall>c\<in>set body. c \<noteq> CHR 0x22 \<and> c \<noteq> CHR 0x5C"
    using Cons.prems(1) by simp_all
  have step: "read_string_loop a result = read_string_loop (advance a) (result @ [c])"
    using cur nq nb by (rule read_string_loop_step)
  have "rest (advance a) = body @ s"
    using Cons.prems(2) by (simp add: rest_advance)
  from Cons.IH [OF plain this, of "result @ [c]"] obtain a' where
    "read_string_loop (advance a) (result @ [c]) = read_string_loop a' ((result @ [c]) @ body)"
    and "rest a' = s" and "line a' = line (advance a)"
    and "symbol_table a' = symbol_table (advance a)"
    by blast
  then show ?case
    using step by auto
qed

text \<open>No loop of a reader touches \<open>line\<close> or the symbol table.\<close>

lemma read_string_loop_keeps:
  "read_string_loop a result = (r, a1) \<Longrightarrow>
   line a1 = line a \<and> symbol_table a1 = symbol_table a
   \<and> (\<forall>e. r = Inl e \<longrightarrow> err_line e = line a)"
proof (induction a result rule: read_string_loop.induct)
  case (1 a result)
  show ?case
  proof (cases "current_char a")
    case None
    then show ?thesis
      using "1.prems" by (auto simp: read_string_loop_None)
  next
    case (Some c)
    show ?thesis
    proof (cases "c = CHR 0x22")
      case True
      then show ?thesis
        using "1.prems" Some by (auto simp: read_string_loop_stop)
    next
      case nq: False
      show ?thesis
      proof (cases "c = CHR 0x5C")
        case bs: True
        show ?thesis
        proof (cases "\<exists>d. current_char (advance a) = Some d
                         \<and> d \<in> {CHR ''n'', CHR ''t'', CHR 0x22, CHR 0x5C}")
          case True
          then obtain d where d: "current_char (advance a) = Some d"
            and dm: "d \<in> {CHR ''n'', CHR ''t'', CHR 0x22, CHR 0x5C}" by blast
          have "read_string_loop (advance (advance a)) (result @ [CHR 0x5C, d]) = (r, a1)"
            using "1.prems" Some bs d dm by (simp add: read_string_loop_escape)
          then show ?thesis
            using "1.IH"(1) [OF Some nq bs refl d dm] by simp
        next
          case False
          then have "read_string_loop a result
                 = (Inl (LexicalError ''Invalid escape sequence'' (line (advance a)) (column (advance a))), advance a)"
            using Some bs by (intro read_string_loop_raise) auto
          then show ?thesis
            using "1.prems" by auto
        qed
      next
        case nb: False
        have "read_string_loop (advance a) (result @ [c]) = (r, a1)"
          using "1.prems" by (simp add: read_string_loop_step [OF Some nq nb])
        then show ?thesis
          using "1.IH"(2) [OF Some nq nb] by simp
      qed
    qed
  qed
qed

lemma read_string_keeps:
  "read_string a = (r, a1) \<Longrightarrow>
   line a1 = line a \<and> symbol_table a1 = symbol_table a
   \<and> (\<forall>e. r = Inl e \<longrightarrow> err_line e = line a)
   \<and> (\<forall>token. r = Inr token \<longrightarrow> tok_line token = line a \<and> tok_type token = STRING)"
proof -
  assume rs: "read_string a = (r, a1)"
  obtain r' a' where loop: "read_string_loop (advance a) [] = (r', a')"
    by (cases "read_string_loop (advance a) []")
  from read_string_loop_keeps [OF loop]
  have k: "line a' = line a" "symbol_table a' = symbol_table a"
    "\<forall>e. r' = Inl e \<longrightarrow> err_line e = line a"
    by simp_all
  show ?thesis
    using rs k by (auto simp: read_string_def Let_def loop split: sum.splits if_splits)
qed

lemma line_init_scanner [simp]: "line (init_scanner src a) = 1"
  by (simp add: init_scanner_def)

lemma column_init_scanner: "column (init_scanner src a) = (if src = [] then 1 else 2)"
  by (simp add: init_scanner_def advance_def)

lemma symbol_table_init_scanner [simp]: "symbol_table (init_scanner src a) = symbol_table a"
  by (simp add: init_scanner_def)



subsection \<open>Literals on a given remaining input\<close>

lemma read_string_plain:
  assumes plain: "\<forall>c\<in>set body. c \<noteq> CHR 0x22 \<and> c \<noteq> CHR 0x5C"
    and rest: "rest a = CHR 0x22 # body @ CHR 0x22 # r"
  shows "\<exists>a1. read_string a = (Inr (Token STRING (VStr body) (line a) (column a)), a1)
              \<and> rest a1 = r \<and> line a1 = line a \<and> symbol_table a1 = symbol_table a"
proof -
  have "rest (advance a) = body @ CHR 0x22 # r"
    using rest by (rule rest_advance)
  from read_string_loop_plain [OF plain this, of "[]"] obtain a' where
    run: "read_string_loop (advance a) [] = read_string_loop a' body"
    and ra': "rest a' = CHR 0x22 # r" and la': "line a' = line a"
    and ta': "symbol_table a' = symbol_table a"
    by auto
  have cur: "current_char a' = Some (CHR 0x22)"
    using ra' by (rule rest_current)
  have "read_string_loop (advance a) [] = (Inr body, a')"
    using run cur by (simp add: read_string_loop_stop)
  then have "read_string a = (Inr (Token STRING (VStr body) (line a) (column a)), advance a')"
    using cur la' by (simp add: read_string_def)
  moreover have "rest (advance a') = r"
    using ra' by (rule rest_advance)
  ultimately show ?thesis
    using la' ta' by simp
qed






section \<open>The scanner and the symbol table\<close>

text \<open>
  The scanner never reads \<^verbatim>\<open>self.symbol_table\<close> except in \<^verbatim>\<open>read_identifier\<close>:
  replacing the table of the state replaces the table of the result and changes nothing
  else.
\<close>

lemma advance_table: "advance (a\<lparr>symbol_table := t\<rparr>) = (advance a)\<lparr>symbol_table := t\<rparr>"
  by (simp add: advance_def)

lemma advance_table_line:
  "advance (a\<lparr>symbol_table := t, line := l, column := k\<rparr>)
     = (advance (a\<lparr>line := l, column := k\<rparr>))\<lparr>symbol_table := t\<rparr>"
  by (simp add: advance_def)

lemma peek_table [simp]: "peek (a\<lparr>symbol_table := t\<rparr>) = peek a"
  by (simp add: peek_def)

lemma skip_whitespace_table:
  "skip_whitespace (a\<lparr>symbol_table := t\<rparr>) = (skip_whitespace a)\<lparr>symbol_table := t\<rparr>"
proof (induction a rule: skip_whitespace.induct)
  case (1 a)
  show ?case
  proof (cases "current_char a")
    case None
    then show ?thesis by (simp add: skip_whitespace_None)
  next
    case (Some c)
    then have cur: "current_char (a\<lparr>symbol_table := t\<rparr>) = Some c" by simp
    show ?thesis
    proof (cases "isspace c")
      case True
      show ?thesis
        using "1.IH" [OF Some True]
        by (cases "c = CHR 0x0A")
           (simp_all add: skip_whitespace_step [OF Some True] skip_whitespace_step [OF cur True]
                          advance_table advance_table_line)
    next
      case False
      show ?thesis
        by (simp add: skip_whitespace_stop [OF Some False] skip_whitespace_stop [OF cur False])
    qed
  qed
qed

lemma skip_comment_single_table:
  "skip_comment_single (a\<lparr>symbol_table := t\<rparr>) = (skip_comment_single a)\<lparr>symbol_table := t\<rparr>"
proof (induction a rule: skip_comment_single.induct)
  case (1 a)
  show ?case
  proof (cases "current_char a")
    case None
    then show ?thesis by (simp add: skip_comment_single_None)
  next
    case (Some c)
    then have cur: "current_char (a\<lparr>symbol_table := t\<rparr>) = Some c" by simp
    show ?thesis
    proof (cases "c = CHR 0x0A")
      case True
      then show ?thesis
        using Some by (simp add: skip_comment_single_stop)
    next
      case False
      show ?thesis
        using "1.IH" [OF Some False]
        by (simp add: skip_comment_single_step [OF Some False]
                      skip_comment_single_step [OF cur False] advance_table)
    qed
  qed
qed

lemma skip_comment_multi_table:
  "skip_comment_multi (a\<lparr>symbol_table := t\<rparr>) = (skip_comment_multi a)\<lparr>symbol_table := t\<rparr>"
proof (induction a rule: skip_comment_multi.induct)
  case (1 a)
  show ?case
  proof (cases "current_char a")
    case None
    then show ?thesis by (simp add: skip_comment_multi_None)
  next
    case (Some c)
    then have cur: "current_char (a\<lparr>symbol_table := t\<rparr>) = Some c" by simp
    show ?thesis
    proof (cases "c = CHR ''*'' \<and> peek a = Some (CHR ''/'')")
      case True
      then show ?thesis
        using Some by (simp add: skip_comment_multi_stop advance_table)
    next
      case False
      then have nc: "\<not> (c = CHR ''*'' \<and> peek (a\<lparr>symbol_table := t\<rparr>) = Some (CHR ''/''))"
        by simp
      show ?thesis
        using "1.IH" [OF Some False]
        by (cases "c = CHR 0x0A")
           (simp_all add: skip_comment_multi_step [OF Some False]
                          skip_comment_multi_step [OF cur nc] advance_table advance_table_line)
    qed
  qed
qed

lemma skip_comment_table:
  "skip_comment (a\<lparr>symbol_table := t\<rparr>) = (skip_comment a)\<lparr>symbol_table := t\<rparr>"
  by (simp add: skip_comment_def skip_comment_single_table skip_comment_multi_table advance_table)

lemma read_identifier_loop_table:
  "read_identifier_loop (a\<lparr>symbol_table := t\<rparr>) result =
     (fst (read_identifier_loop a result),
      (snd (read_identifier_loop a result))\<lparr>symbol_table := t\<rparr>)"
proof (induction a result rule: read_identifier_loop.induct)
  case (1 a result)
  show ?case
  proof (cases "current_char a")
    case None
    then show ?thesis by (simp add: read_identifier_loop_None)
  next
    case (Some c)
    then have cur: "current_char (a\<lparr>symbol_table := t\<rparr>) = Some c" by simp
    show ?thesis
    proof (cases "isalnum c \<or> c = CHR ''_''")
      case True
      show ?thesis
        using "1.IH" [OF Some True]
        by (simp add: read_identifier_loop_step [OF Some True]
                      read_identifier_loop_step [OF cur True] advance_table)
    next
      case False
      show ?thesis
        by (simp add: read_identifier_loop_stop [OF Some False]
                      read_identifier_loop_stop [OF cur False])
    qed
  qed
qed

lemma read_number_loop_table:
  "read_number_loop (a\<lparr>symbol_table := t\<rparr>) result is_float =
     (fst (read_number_loop a result is_float),
      (snd (read_number_loop a result is_float))\<lparr>symbol_table := t\<rparr>)"
proof (induction a result is_float rule: read_number_loop.induct)
  case (1 a result is_float)
  show ?case
  proof (cases "current_char a")
    case None
    then show ?thesis by (simp add: read_number_loop_None)
  next
    case (Some c)
    then have cur: "current_char (a\<lparr>symbol_table := t\<rparr>) = Some c" by simp
    show ?thesis
    proof (cases "isdigit c \<or> c = CHR ''.''")
      case d: True
      show ?thesis
      proof (cases "c = CHR ''.'' \<and> is_float")
        case True
        then show ?thesis
          using Some by (simp add: read_number_loop_raise)
      next
        case nf: False
        show ?thesis
          using "1.IH" [OF Some d nf]
          by (simp add: read_number_loop_step [OF Some d nf]
                        read_number_loop_step [OF cur d nf] advance_table)
      qed
    next
      case False
      show ?thesis
        by (simp add: read_number_loop_stop [OF Some False] read_number_loop_stop [OF cur False])
    qed
  qed
qed

lemma read_string_loop_table:
  "read_string_loop (a\<lparr>symbol_table := t\<rparr>) result =
     (fst (read_string_loop a result), (snd (read_string_loop a result))\<lparr>symbol_table := t\<rparr>)"
proof (induction a result rule: read_string_loop.induct)
  case (1 a result)
  show ?case
  proof (cases "current_char a")
    case None
    then show ?thesis by (simp add: read_string_loop_None)
  next
    case (Some c)
    then have cur: "current_char (a\<lparr>symbol_table := t\<rparr>) = Some c" by simp
    show ?thesis
    proof (cases "c = CHR 0x22")
      case True
      then show ?thesis
        using Some by (simp add: read_string_loop_stop)
    next
      case nq: False
      show ?thesis
      proof (cases "c = CHR 0x5C")
        case bs: True
        show ?thesis
        proof (cases "\<exists>d. current_char (advance a) = Some d
                         \<and> d \<in> {CHR ''n'', CHR ''t'', CHR 0x22, CHR 0x5C}")
          case True
          then obtain d where d: "current_char (advance a) = Some d"
            and dm: "d \<in> {CHR ''n'', CHR ''t'', CHR 0x22, CHR 0x5C}" by blast
          have d': "current_char (advance (a\<lparr>symbol_table := t\<rparr>)) = Some d"
            using d by (simp add: advance_table)
          have "read_string_loop (a\<lparr>symbol_table := t\<rparr>) result
                 = read_string_loop (advance (advance (a\<lparr>symbol_table := t\<rparr>)))
                     (result @ [CHR 0x5C, d])"
            using cur bs d' dm by (simp add: read_string_loop_escape)
          moreover have "read_string_loop a result
                 = read_string_loop (advance (advance a)) (result @ [CHR 0x5C, d])"
            using Some bs d dm by (simp add: read_string_loop_escape)
          ultimately show ?thesis
            using "1.IH"(1) [OF Some nq bs refl d dm] by (simp add: advance_table)
        next
          case False
          then have "read_string_loop a result
                 = (Inl (LexicalError ''Invalid escape sequence'' (line (advance a)) (column (advance a))), advance a)"
            using Some bs by (intro read_string_loop_raise) auto
          moreover have "read_string_loop (a\<lparr>symbol_table := t\<rparr>) result
                 = (Inl (LexicalError ''Invalid escape sequence''
                           (line (advance (a\<lparr>symbol_table := t\<rparr>)))
                           (column (advance (a\<lparr>symbol_table := t\<rparr>)))),
                    advance (a\<lparr>symbol_table := t\<rparr>))"
            using False cur bs by (intro read_string_loop_raise) (auto simp: advance_table)
          ultimately show ?thesis
            by (simp add: advance_table)
        qed
      next
        case nb: False
        show ?thesis
          using "1.IH"(2) [OF Some nq nb]
          by (simp add: read_string_loop_step [OF Some nq nb]
                        read_string_loop_step [OF cur nq nb] advance_table)
      qed
    qed
  qed
qed

text \<open>
  The table after a call of \<^verbatim>\<open>get_next_token\<close> that returned \<open>r\<close>, from the table
  \<open>t\<close> before it: only an \<open>IDENTIFIER\<close> token records an occurrence.
\<close>

definition table_after :: "LexicalError + Token \<Rightarrow> (string \<rightharpoonup> entry) \<Rightarrow> (string \<rightharpoonup> entry)" where
  "table_after r t =
     (case r of
        Inl e \<Rightarrow> t
      | Inr token \<Rightarrow>
          if tok_type token = IDENTIFIER then
            (case tok_value token of
               VStr w \<Rightarrow> record_identifier w (tok_line token, tok_column token) t
             | _ \<Rightarrow> t)
          else t)"

lemma operators_not_identifier: "operators op = Some ty \<Longrightarrow> ty \<noteq> IDENTIFIER"
  by (auto simp: operators_def split: if_splits)

lemma keywords_not_identifier: "keywords_dict w = Some ty \<Longrightarrow> ty \<noteq> IDENTIFIER"
  by (auto simp: keywords_dict_def split: if_splits)

lemma read_identifier_table:
  "read_identifier (a\<lparr>symbol_table := t\<rparr>) =
     (fst (read_identifier a),
      (snd (read_identifier a))\<lparr>symbol_table := table_after (Inr (fst (read_identifier a))) t\<rparr>)"
  by (cases "read_identifier_loop a []")
     (auto simp: read_identifier_def read_identifier_loop_table table_after_def Let_def
           split: option.splits dest: keywords_not_identifier)

lemma read_number_table:
  "read_number (a\<lparr>symbol_table := t\<rparr>) =
     (fst (read_number a), (snd (read_number a))\<lparr>symbol_table := t\<rparr>)"
  by (cases "read_number_loop a [] False")
     (auto simp: read_number_def read_number_loop_table Let_def split: sum.splits prod.splits)

lemma read_number_type:
  "fst (read_number a) = Inr token \<Longrightarrow> tok_type token = INTEGER \<or> tok_type token = FLOAT_LITERAL"
  by (cases "read_number_loop a [] False")
     (auto simp: read_number_def Let_def split: sum.splits if_splits prod.splits)

lemma read_string_table:
  "read_string (a\<lparr>symbol_table := t\<rparr>) =
     (fst (read_string a), (snd (read_string a))\<lparr>symbol_table := t\<rparr>)"
  by (cases "read_string_loop (advance a) []")
     (auto simp: read_string_def read_string_loop_table advance_table Let_def
           split: sum.splits)

lemma read_char_literal_table:
  "read_char_literal (a\<lparr>symbol_table := t\<rparr>) =
     (fst (read_char_literal a), (snd (read_char_literal a))\<lparr>symbol_table := t\<rparr>)"
  by (simp add: read_char_literal_def Let_def advance_table split: option.splits)

lemma read_char_literal_type:
  "fst (read_char_literal a) = Inr token \<Longrightarrow> tok_type token = CHAR_LITERAL"
  by (auto simp: read_char_literal_def Let_def split: option.splits if_splits)

lemma read_string_type:
  "fst (read_string a) = Inr token \<Longrightarrow> tok_type token = STRING"
  using read_string_keeps [of a "Inr token" "snd (read_string a)"]
  by (metis prod.collapse)

lemma table_after_other:
  "(\<And>token. r = Inr token \<Longrightarrow> tok_type token \<noteq> IDENTIFIER) \<Longrightarrow> table_after r t = t"
  by (auto simp: table_after_def split: sum.splits)

lemma get_next_token_table:
  "get_next_token (a\<lparr>symbol_table := t\<rparr>) =
     (fst (get_next_token a),
      (snd (get_next_token a))\<lparr>symbol_table := table_after (fst (get_next_token a)) t\<rparr>)"
proof (induction a arbitrary: t rule: get_next_token.induct)
  case (1 a)
  show ?case
  proof (cases "current_char a")
    case None
    then show ?thesis
      by (simp add: get_next_token_None table_after_def)
  next
    case (Some c)
    then have cur: "current_char (a\<lparr>symbol_table := t\<rparr>) = Some c" by simp
    show ?thesis
    proof (cases "isspace c")
      case True
      show ?thesis
        using "1.IH"(1) [OF Some True, of t]
        by (simp add: get_next_token_space [OF Some True] get_next_token_space [OF cur True]
                      skip_whitespace_table)
    next
      case ns: False
      show ?thesis
      proof (cases "c = CHR ''/'' \<and> (peek a = Some (CHR ''/'') \<or> peek a = Some (CHR ''*''))")
        case True
        then have c: "current_char a = Some (CHR ''/'')"
          and pk: "peek a = Some (CHR ''/'') \<or> peek a = Some (CHR ''*'')"
          using Some by simp_all
        have c': "current_char (a\<lparr>symbol_table := t\<rparr>) = Some (CHR ''/'')"
          and pk': "peek (a\<lparr>symbol_table := t\<rparr>) = Some (CHR ''/'')
                    \<or> peek (a\<lparr>symbol_table := t\<rparr>) = Some (CHR ''*'')"
          using c pk by simp_all
        show ?thesis
          using "1.IH"(2) [OF Some ns True, of t]
          by (simp add: get_next_token_comment [OF c pk] get_next_token_comment [OF c' pk']
                        skip_comment_table)
      next
        case nc: False
        then have nc': "\<not> (c = CHR ''/'' \<and> (peek (a\<lparr>symbol_table := t\<rparr>) = Some (CHR ''/'')
                                            \<or> peek (a\<lparr>symbol_table := t\<rparr>) = Some (CHR ''*'')))"
          by simp
        note eq = get_next_token_lexeme [OF Some ns nc]
        note eq' = get_next_token_lexeme [OF cur ns nc']
        consider (ident) "isalpha c \<or> c = CHR ''_''"
          | (num) "\<not> (isalpha c \<or> c = CHR ''_'')" "isdigit c"
          | (str) "\<not> (isalpha c \<or> c = CHR ''_'')" "\<not> isdigit c" "c = CHR 0x22"
          | (chr) "\<not> (isalpha c \<or> c = CHR ''_'')" "\<not> isdigit c" "c \<noteq> CHR 0x22" "c = CHR 0x27"
          | (op2) "\<not> (isalpha c \<or> c = CHR ''_'')" "\<not> isdigit c" "c \<noteq> CHR 0x22" "c \<noteq> CHR 0x27"
                  "c \<in> {CHR ''='', CHR ''!'', CHR ''<'', CHR ''>''} \<and> peek a = Some (CHR ''='')"
          | (op1) "\<not> (isalpha c \<or> c = CHR ''_'')" "\<not> isdigit c" "c \<noteq> CHR 0x22" "c \<noteq> CHR 0x27"
                  "\<not> (c \<in> {CHR ''='', CHR ''!'', CHR ''<'', CHR ''>''} \<and> peek a = Some (CHR ''=''))"
                  "operators [c] \<noteq> None"
          | (bad) "\<not> (isalpha c \<or> c = CHR ''_'')" "\<not> isdigit c" "c \<noteq> CHR 0x22" "c \<noteq> CHR 0x27"
                  "\<not> (c \<in> {CHR ''='', CHR ''!'', CHR ''<'', CHR ''>''} \<and> peek a = Some (CHR ''=''))"
                  "operators [c] = None"
          by blast
        then show ?thesis
        proof cases
          case ident
          have "get_next_token a = (Inr (fst (read_identifier a)), snd (read_identifier a))"
            using eq ident by (simp split: prod.splits)
          moreover have "get_next_token (a\<lparr>symbol_table := t\<rparr>)
              = (Inr (fst (read_identifier (a\<lparr>symbol_table := t\<rparr>))),
                 snd (read_identifier (a\<lparr>symbol_table := t\<rparr>)))"
            using eq' ident by (simp split: prod.splits)
          ultimately show ?thesis
            by (simp add: read_identifier_table)
        next
          case num
          have "get_next_token a = read_number a"
            and "get_next_token (a\<lparr>symbol_table := t\<rparr>) = read_number (a\<lparr>symbol_table := t\<rparr>)"
            using eq eq' num by simp_all
          moreover have "table_after (fst (read_number a)) t = t"
            using read_number_type [of a] by (intro table_after_other) auto
          ultimately show ?thesis
            by (simp add: read_number_table)
        next
          case str
          have "get_next_token a = read_string a"
            and "get_next_token (a\<lparr>symbol_table := t\<rparr>) = read_string (a\<lparr>symbol_table := t\<rparr>)"
            using eq eq' str by simp_all
          moreover have "table_after (fst (read_string a)) t = t"
            using read_string_type [of a] by (intro table_after_other) auto
          ultimately show ?thesis
            by (simp add: read_string_table)
        next
          case chr
          have "get_next_token a = read_char_literal a"
            and "get_next_token (a\<lparr>symbol_table := t\<rparr>)
                   = read_char_literal (a\<lparr>symbol_table := t\<rparr>)"
            using eq eq' chr by simp_all
          moreover have "table_after (fst (read_char_literal a)) t = t"
            using read_char_literal_type [of a] by (intro table_after_other) auto
          ultimately show ?thesis
            by (simp add: read_char_literal_table)
        next
          case op2
          then obtain ty where ty: "operators [c, CHR ''=''] = Some ty"
            using operators_two_chars [of c] by auto
          then have "ty \<noteq> IDENTIFIER"
            by (rule operators_not_identifier)
          then show ?thesis
            using eq eq' op2 ty by (simp add: Let_def advance_table table_after_def)
        next
          case op1
          then obtain ty where ty: "operators [c] = Some ty"
            by auto
          then have "ty \<noteq> IDENTIFIER"
            by (rule operators_not_identifier)
          then show ?thesis
            using eq eq' op1 ty by (auto simp: Let_def advance_table table_after_def)
        next
          case bad
          then show ?thesis
            using eq eq' by (auto simp: table_after_def)
        qed
      qed
    qed
  qed
qed

lemma symbol_table_get_next_token:
  "symbol_table (snd (get_next_token a)) = table_after (fst (get_next_token a)) (symbol_table a)"
proof -
  have "get_next_token (a\<lparr>symbol_table := symbol_table a\<rparr>) = get_next_token a"
    by simp
  then have "snd (get_next_token a)
           = (snd (get_next_token a))
               \<lparr>symbol_table := table_after (fst (get_next_token a)) (symbol_table a)\<rparr>"
    using get_next_token_table [of "symbol_table a" a] by (metis snd_conv)
  then show ?thesis
    by (metis LexicalAnalyzer.select_convs(1) LexicalAnalyzer.surjective LexicalAnalyzer.update_convs(1))
qed


lemma record_identifier_new:
  "t w = None \<Longrightarrow>
   record_identifier w loc t = t(w \<mapsto> \<lparr>first_seen = loc, occurrences = [loc]\<rparr>)"
  by (simp add: record_identifier_def)

lemma record_identifier_old:
  "t w = Some e \<Longrightarrow>
   record_identifier w loc t
     = t(w \<mapsto> \<lparr>first_seen = first_seen e, occurrences = occurrences e @ [loc]\<rparr>)"
  by (cases e) (simp add: record_identifier_def)

lemma get_next_token_identifier:
  "fst (get_next_token a) = Inr token \<Longrightarrow> tok_type token = IDENTIFIER \<Longrightarrow>
   \<exists>w. tok_value token = VStr w \<and> keywords_dict w = None"
proof (induction a rule: get_next_token.induct)
  case (1 a)
  show ?case
  proof (cases "current_char a")
    case None
    then show ?thesis
      using "1.prems" by (auto simp: get_next_token_None)
  next
    case (Some c)
    show ?thesis
    proof (cases "isspace c")
      case True
      then show ?thesis
        using "1.IH"(1) [OF Some True] "1.prems"
        by (simp add: get_next_token_space [OF Some True])
    next
      case ns: False
      show ?thesis
      proof (cases "c = CHR ''/'' \<and> (peek a = Some (CHR ''/'') \<or> peek a = Some (CHR ''*''))")
        case True
        then have c: "current_char a = Some (CHR ''/'')"
          and pk: "peek a = Some (CHR ''/'') \<or> peek a = Some (CHR ''*'')"
          using Some by simp_all
        show ?thesis
          using "1.IH"(2) [OF Some ns True] "1.prems"
          by (simp add: get_next_token_comment [OF c pk])
      next
        case nc: False
        note eq = get_next_token_lexeme [OF Some ns nc]
        consider (ident) "isalpha c \<or> c = CHR ''_''"
          | (num) "\<not> (isalpha c \<or> c = CHR ''_'')" "isdigit c"
          | (str) "\<not> (isalpha c \<or> c = CHR ''_'')" "\<not> isdigit c" "c = CHR 0x22"
          | (chr) "\<not> (isalpha c \<or> c = CHR ''_'')" "\<not> isdigit c" "c \<noteq> CHR 0x22" "c = CHR 0x27"
          | (op) "\<not> (isalpha c \<or> c = CHR ''_'')" "\<not> isdigit c" "c \<noteq> CHR 0x22" "c \<noteq> CHR 0x27"
          by blast
        then show ?thesis
        proof cases
          case ident
          then have "token = fst (read_identifier a)"
            using eq "1.prems"(1) by (simp split: prod.splits)
          then show ?thesis
            using "1.prems"(2)
            by (cases "read_identifier_loop a []")
               (auto simp: read_identifier_def Let_def split: option.splits if_splits
                     dest: keywords_not_identifier)
        next
          case num
          then have "fst (read_number a) = Inr token"
            using eq "1.prems"(1) by simp
          then show ?thesis
            using read_number_type [of a token] "1.prems"(2) by auto
        next
          case str
          then have "fst (read_string a) = Inr token"
            using eq "1.prems"(1) by simp
          then show ?thesis
            using read_string_type [of a token] "1.prems"(2) by auto
        next
          case chr
          then have "fst (read_char_literal a) = Inr token"
            using eq "1.prems"(1) by simp
          then show ?thesis
            using read_char_literal_type [of a token] "1.prems"(2) by auto
        next
          case op
          show ?thesis
          proof (cases "c \<in> {CHR ''='', CHR ''!'', CHR ''<'', CHR ''>''} \<and> peek a = Some (CHR ''='')")
            case True
            then obtain ty where ty: "operators [c, CHR ''=''] = Some ty"
              using operators_two_chars [of c] by auto
            then have "ty \<noteq> IDENTIFIER"
              by (rule operators_not_identifier)
            then show ?thesis
              using eq op True ty "1.prems" by (auto simp: Let_def)
          next
            case False
            show ?thesis
            proof (cases "operators [c]")
              case None
              then show ?thesis
                using eq op False "1.prems" by auto
            next
              case (Some ty)
              then have "ty \<noteq> IDENTIFIER"
                by (rule operators_not_identifier)
              then show ?thesis
                using eq op False Some "1.prems" by (auto simp: Let_def)
            qed
          qed
        qed
      qed
    qed
  qed
qed








section \<open>Tokens and the text they were scanned from\<close>

text \<open>
  The source substring that a token was scanned from, its lexeme, is not stored in the
  token: numbers are stored decoded and literals without their quotes.  \<open>lexeme_of t l\<close>
  says that \<open>l\<close> is a lexeme for the token \<open>t\<close>: digits that decode to the value of an
  \<open>INTEGER\<close>; digits with one point that decode to the value of a \<open>FLOAT_LITERAL\<close>;
  the value between double or single quotes for a \<open>STRING\<close> or \<open>CHAR_LITERAL\<close>; the
  value itself for an identifier, a keyword, an operator or a delimiter.
\<close>

definition lexeme_of :: "Token \<Rightarrow> string \<Rightarrow> bool" where
  "lexeme_of t l \<longleftrightarrow>
     l \<noteq> [] \<and>
     (if tok_type t = INTEGER then list_all isdigit l \<and> tok_value t = VInt (py_int l)
      else if tok_type t = FLOAT_LITERAL then
        list_all (\<lambda>c. isdigit c \<or> c = CHR ''.'') l \<and> count_list l (CHR ''.'') = 1
        \<and> tok_value t = VFloat (py_float l)
      else if tok_type t = STRING then
        2 \<le> length l \<and> hd l = CHR 0x22 \<and> last l = CHR 0x22 \<and> tok_value t = VStr (butlast (tl l))
      else if tok_type t = CHAR_LITERAL then
        2 \<le> length l \<and> hd l = CHR 0x27 \<and> last l = CHR 0x27 \<and> tok_value t = VStr (butlast (tl l))
      else if tok_type t = IDENTIFIER then keywords_dict l = None \<and> tok_value t = VStr l
      else tok_value t = VStr l
           \<and> (keywords_dict l = Some (tok_type t) \<or> operators l = Some (tok_type t)))"

text \<open>
  \<open>interleaved src ls\<close>: the text \<open>src\<close> is the strings \<open>ls\<close> in their order, with
  nothing but whitespace and comments before, between and after them; the concatenation
  of \<open>ls\<close> is \<open>src\<close> with its whitespace and comments removed. A single-line comment
  runs to a newline or to the end of the text, a multi-line comment to its first closer;
  a multi-line comment that is never closed takes the rest of the text.
\<close>

inductive interleaved :: "string \<Rightarrow> string list \<Rightarrow> bool" where
  il_Nil: "interleaved [] []"
| il_space: "isspace c \<Longrightarrow> interleaved s ls \<Longrightarrow> interleaved (c # s) ls"
| il_line_comment:
    "CHR 0x0A \<notin> set body \<Longrightarrow> s = [] \<or> hd s = CHR 0x0A \<Longrightarrow> interleaved s ls \<Longrightarrow>
     interleaved (''//'' @ body @ s) ls"
| il_block_comment:
    "\<not> has_close body \<Longrightarrow> interleaved s ls \<Longrightarrow> interleaved (''/*'' @ body @ ''*/'' @ s) ls"
| il_open_block_comment:
    "\<not> has_close body \<Longrightarrow> interleaved (''/*'' @ body) []"
| il_lexeme: "interleaved s ls \<Longrightarrow> interleaved (l @ s) (l # ls)"

lemma keywords_types:
  "keywords_dict w = Some ty \<Longrightarrow>
   ty \<notin> {IDENTIFIER, INTEGER, FLOAT_LITERAL, STRING, CHAR_LITERAL, EOF}"
  by (auto simp: keywords_dict_def split: if_splits)

lemma operators_types:
  "operators op = Some ty \<Longrightarrow>
   ty \<notin> {IDENTIFIER, INTEGER, FLOAT_LITERAL, STRING, CHAR_LITERAL, EOF}"
  by (auto simp: operators_def split: if_splits)

lemma rest_step: "current_char a = Some c \<Longrightarrow> rest a = c # rest (advance a)"
  using current_rest [of a c] rest_advance [of a c] by auto

lemma interleaved_spaces: "interleaved (dropWhile isspace s) ls \<Longrightarrow> interleaved s ls"
  by (induction s) (auto intro: il_space split: if_splits)

lemma interleaved_line:
  assumes "interleaved (dropWhile (\<lambda>c. c \<noteq> CHR 0x0A) s) ls"
  shows "interleaved (CHR ''/'' # CHR ''/'' # s) ls"
proof -
  let ?body = "takeWhile (\<lambda>c. c \<noteq> CHR 0x0A) s"
  let ?s = "dropWhile (\<lambda>c. c \<noteq> CHR 0x0A) s"
  have "CHR 0x0A \<notin> set ?body"
    by (auto dest: set_takeWhileD)
  moreover have "?s = [] \<or> hd ?s = CHR 0x0A"
    using hd_dropWhile [of "\<lambda>c. c \<noteq> CHR 0x0A" s] by auto
  ultimately have "interleaved (''//'' @ ?body @ ?s) ls"
    using assms by (rule il_line_comment)
  then show ?thesis by simp
qed

lemma has_close_split:
  "has_close s \<Longrightarrow> \<exists>body. s = body @ ''*/'' @ after_close s \<and> \<not> has_close body"
proof (induction s rule: has_close.induct)
  case 1
  then show ?case by simp
next
  case (2 c)
  then show ?case by simp
next
  case (3 c d s)
  show ?case
  proof (cases "c = CHR ''*'' \<and> d = CHR ''/''")
    case True
    then have "c # d # s = [] @ ''*/'' @ after_close (c # d # s)" by simp
    then show ?thesis
      using has_close.simps(1) by blast
  next
    case False
    then have "has_close (d # s)"
      using "3.prems" by auto
    then obtain body where b: "d # s = body @ ''*/'' @ after_close (d # s)" "\<not> has_close body"
      using "3.IH" by blast
    have nb: "\<not> has_close (c # body)"
    proof (cases body)
      case Nil
      then show ?thesis by simp
    next
      case (Cons x xs)
      then have "x = d" using b(1) by simp
      then show ?thesis
        using Cons b(2) False by simp
    qed
    have "c # d # s = (c # body) @ ''*/'' @ after_close (c # d # s)"
      using b(1) False by auto
    then show ?thesis
      using nb by blast
  qed
qed

lemma no_close_after: "\<not> has_close s \<Longrightarrow> after_close s = []"
  by (induction s rule: has_close.induct) auto

lemma interleaved_block:
  assumes "has_close s" and "interleaved (after_close s) ls"
  shows "interleaved (CHR ''/'' # CHR ''*'' # s) ls"
proof -
  obtain body where b: "s = body @ ''*/'' @ after_close s" and nb: "\<not> has_close body"
    using has_close_split [OF assms(1)] by blast
  have "interleaved (''/*'' @ body @ ''*/'' @ after_close s) ls"
    using nb assms(2) by (rule il_block_comment)
  then show ?thesis
    using b by (metis append_Cons append_Nil)
qed

lemma interleaved_open_block:
  assumes "\<not> has_close s"
  shows "interleaved (CHR ''/'' # CHR ''*'' # s) []"
  using il_open_block_comment [OF assms] by simp

subsection \<open>What each reader consumes\<close>

lemma read_identifier_loop_span:
  "rest a = s \<Longrightarrow>
   fst (read_identifier_loop a result) = result @ takeWhile (\<lambda>c. isalnum c \<or> c = CHR ''_'') s
   \<and> rest (snd (read_identifier_loop a result)) = dropWhile (\<lambda>c. isalnum c \<or> c = CHR ''_'') s"
proof (induction s arbitrary: a result)
  case Nil
  then show ?case
    by (simp add: rest_Nil_iff read_identifier_loop_None rest_None)
next
  case (Cons c r)
  have cur: "current_char a = Some c"
    using Cons.prems by (rule rest_current)
  show ?case
  proof (cases "isalnum c \<or> c = CHR ''_''")
    case True
    have "rest (advance a) = r"
      using Cons.prems by (rule rest_advance)
    from Cons.IH [OF this, of "result @ [c]"] show ?thesis
      using True by (simp add: read_identifier_loop_step [OF cur True])
  next
    case False
    then show ?thesis
      using Cons.prems by (simp add: read_identifier_loop_stop [OF cur False])
  qed
qed

lemma read_identifier_span:
  assumes cur: "current_char a = Some c" and start: "isalpha c \<or> c = CHR ''_''"
  shows "\<exists>l. lexeme_of (fst (read_identifier a)) l
            \<and> rest a = l @ rest (snd (read_identifier a))
            \<and> tok_type (fst (read_identifier a)) \<noteq> EOF"
proof -
  let ?P = "\<lambda>c. isalnum c \<or> c = CHR ''_''"
  let ?l = "takeWhile ?P (rest a)"
  obtain r where r: "rest a = c # r"
    using current_rest [OF cur] by blast
  have "?P c"
    using start by (auto simp: isalnum_def)
  then have ne: "?l \<noteq> []"
    using r by simp
  obtain result a1 where loop: "read_identifier_loop a [] = (result, a1)"
    by (cases "read_identifier_loop a []")
  have res: "result = ?l" and ra1: "rest a1 = dropWhile ?P (rest a)"
    using read_identifier_loop_span [OF refl, of a "[]"] loop by simp_all
  have split: "rest a = ?l @ rest a1"
    using ra1 by simp
  show ?thesis
  proof (cases "keywords_dict result")
    case None
    then have "fst (read_identifier a) = Token IDENTIFIER (VStr result) (line a1) (column a)"
      and "rest (snd (read_identifier a)) = rest a1"
      by (simp_all add: read_identifier_def Let_def loop)
    then show ?thesis
      using None res ne split by (auto simp: lexeme_of_def)
  next
    case (Some ty)
    then have ty: "ty \<notin> {IDENTIFIER, INTEGER, FLOAT_LITERAL, STRING, CHAR_LITERAL, EOF}"
      by (rule keywords_types)
    have "fst (read_identifier a) = Token ty (VStr result) (line a1) (column a)"
      and "rest (snd (read_identifier a)) = rest a1"
      using Some ty by (simp_all add: read_identifier_def Let_def loop)
    then show ?thesis
      using Some ty res ne split by (auto simp: lexeme_of_def)
  qed
qed

lemma read_number_loop_span:
  "read_number_loop a result is_float = (Inr (res, fl), a1) \<Longrightarrow>
   \<exists>l. res = result @ l \<and> rest a = l @ rest a1
       \<and> list_all (\<lambda>c. isdigit c \<or> c = CHR ''.'') l
       \<and> count_list l (CHR ''.'') + (if is_float then 1 else 0) = (if fl then 1 else (0::nat))"
proof (induction a result is_float rule: read_number_loop.induct)
  case (1 a result is_float)
  show ?case
  proof (cases "current_char a")
    case None
    then show ?thesis
      using "1.prems" by (auto simp: read_number_loop_None)
  next
    case (Some c)
    show ?thesis
    proof (cases "isdigit c \<or> c = CHR ''.''")
      case d: True
      show ?thesis
      proof (cases "c = CHR ''.'' \<and> is_float")
        case True
        then show ?thesis
          using "1.prems" Some by (simp add: read_number_loop_raise)
      next
        case nf: False
        have "read_number_loop (advance a) (result @ [c]) (is_float \<or> c = CHR ''.'')
                = (Inr (res, fl), a1)"
          using "1.prems" by (simp add: read_number_loop_step [OF Some d nf])
        from "1.IH" [OF Some d nf this] obtain l where
          l: "res = (result @ [c]) @ l" "rest (advance a) = l @ rest a1"
             "list_all (\<lambda>c. isdigit c \<or> c = CHR ''.'') l"
             "count_list l (CHR ''.'') + (if is_float \<or> c = CHR ''.'' then 1 else 0)
                = (if fl then 1 else (0::nat))"
          by blast
        have "res = result @ (c # l)" and "rest a = (c # l) @ rest a1"
          using l(1,2) rest_step [OF Some] by simp_all
        moreover have "list_all (\<lambda>c. isdigit c \<or> c = CHR ''.'') (c # l)"
          using l(3) d by simp
        moreover have "count_list (c # l) (CHR ''.'') + (if is_float then 1 else 0)
                         = (if fl then 1 else (0::nat))"
          using l(4) nf by (auto split: if_splits)
        ultimately show ?thesis by blast
      qed
    next
      case False
      then show ?thesis
        using "1.prems" Some by (auto simp: read_number_loop_stop)
    qed
  qed
qed

lemma digits_of_no_point:
  "list_all (\<lambda>c. isdigit c \<or> c = CHR ''.'') l \<Longrightarrow> count_list l (CHR ''.'') = 0 \<Longrightarrow>
   list_all isdigit l"
  by (induction l) (auto split: if_splits)

lemma read_number_span:
  assumes cur: "current_char a = Some c" and dig: "isdigit c"
    and ok: "read_number a = (Inr token, a1)"
  shows "\<exists>l. lexeme_of token l \<and> rest a = l @ rest a1 \<and> tok_type token \<noteq> EOF"
proof -
  obtain r a' where loop: "read_number_loop a [] False = (r, a')"
    by (cases "read_number_loop a [] False")
  obtain res fl where r: "r = Inr (res, fl)"
    using ok loop by (cases r) (auto simp: read_number_def Let_def)
  have a': "a' = a1"
    using ok loop r by (auto simp: read_number_def Let_def split: if_splits)
  from read_number_loop_span [of a "[]" False res fl a1] loop r a' obtain l where
    l: "res = l" "rest a = l @ rest a1" "list_all (\<lambda>c. isdigit c \<or> c = CHR ''.'') l"
       "count_list l (CHR ''.'') = (if fl then 1 else 0)"
    by auto
  have ne: "l \<noteq> []"
  proof
    assume "l = []"
    then have "rest a1 = rest a" using l(2) by simp
    moreover have "left a1 < left a"
      using left_read_number [OF cur dig] ok by simp
    moreover have "read_number_loop a [] False = (Inr ([], fl), a1)"
      using loop r a' l(1) \<open>l = []\<close> by simp
    moreover have "read_number_loop a [] False = read_number_loop (advance a) [c] False"
      using read_number_loop_step [OF cur, of False "[]"] dig isdigit_class [OF dig] by simp
    ultimately have "read_number_loop (advance a) [c] False = (Inr ([], fl), a1)"
      by simp
    then show False
      using read_number_loop_span [of "advance a" "[c]" False "[]" fl a1] by simp
  qed
  show ?thesis
  proof (cases fl)
    case True
    then have "token = Token FLOAT_LITERAL (VFloat (py_float l)) (line a1) (column a)"
      using ok loop r a' l(1) by (simp add: read_number_def Let_def)
    then show ?thesis
      using l True ne by (auto simp: lexeme_of_def)
  next
    case False
    then have "token = Token INTEGER (VInt (py_int l)) (line a1) (column a)"
      using ok loop r a' l(1) by (simp add: read_number_def Let_def)
    moreover have "list_all isdigit l"
      using digits_of_no_point [OF l(3)] l(4) False by simp
    ultimately show ?thesis
      using l ne by (auto simp: lexeme_of_def)
  qed
qed

lemma read_string_loop_span:
  "read_string_loop a result = (Inr res, a1) \<Longrightarrow>
   \<exists>l. res = result @ l \<and> rest a = l @ rest a1
       \<and> (current_char a1 = None \<or> current_char a1 = Some (CHR 0x22))"
proof (induction a result rule: read_string_loop.induct)
  case (1 a result)
  show ?case
  proof (cases "current_char a")
    case None
    then show ?thesis
      using "1.prems" by (auto simp: read_string_loop_None)
  next
    case (Some c)
    show ?thesis
    proof (cases "c = CHR 0x22")
      case True
      then show ?thesis
        using "1.prems" Some by (auto simp: read_string_loop_stop)
    next
      case nq: False
      show ?thesis
      proof (cases "c = CHR 0x5C")
        case bs: True
        show ?thesis
        proof (cases "\<exists>d. current_char (advance a) = Some d
                         \<and> d \<in> {CHR ''n'', CHR ''t'', CHR 0x22, CHR 0x5C}")
          case True
          then obtain d where d: "current_char (advance a) = Some d"
            and dm: "d \<in> {CHR ''n'', CHR ''t'', CHR 0x22, CHR 0x5C}" by blast
          have "read_string_loop (advance (advance a)) (result @ [CHR 0x5C, d]) = (Inr res, a1)"
            using "1.prems" Some bs d dm by (simp add: read_string_loop_escape)
          from "1.IH"(1) [OF Some nq bs refl d dm this] obtain l where
            l: "res = (result @ [CHR 0x5C, d]) @ l" "rest (advance (advance a)) = l @ rest a1"
               "current_char a1 = None \<or> current_char a1 = Some (CHR 0x22)"
            by blast
          have "rest a = (CHR 0x5C # d # l) @ rest a1"
            using rest_step [OF Some] rest_step [OF d] l(2) bs by simp
          moreover have "res = result @ (CHR 0x5C # d # l)"
            using l(1) by simp
          ultimately show ?thesis
            using l(3) by blast
        next
          case False
          then have "read_string_loop a result
                 = (Inl (LexicalError ''Invalid escape sequence'' (line (advance a)) (column (advance a))), advance a)"
            using Some bs by (intro read_string_loop_raise) auto
          then show ?thesis
            using "1.prems" by simp
        qed
      next
        case nb: False
        have "read_string_loop (advance a) (result @ [c]) = (Inr res, a1)"
          using "1.prems" by (simp add: read_string_loop_step [OF Some nq nb])
        from "1.IH"(2) [OF Some nq nb this] obtain l where
          l: "res = (result @ [c]) @ l" "rest (advance a) = l @ rest a1"
             "current_char a1 = None \<or> current_char a1 = Some (CHR 0x22)"
          by blast
        have "rest a = (c # l) @ rest a1"
          using rest_step [OF Some] l(2) by simp
        moreover have "res = result @ (c # l)"
          using l(1) by simp
        ultimately show ?thesis
          using l(3) by blast
      qed
    qed
  qed
qed

lemma read_string_span:
  assumes cur: "current_char a = Some (CHR 0x22)" and ok: "read_string a = (Inr token, a1)"
  shows "\<exists>l. lexeme_of token l \<and> rest a = l @ rest a1 \<and> tok_type token \<noteq> EOF"
proof -
  obtain r a' where loop: "read_string_loop (advance a) [] = (r, a')"
    by (cases "read_string_loop (advance a) []")
  obtain res where r: "r = Inr res"
    using ok loop by (cases r) (auto simp: read_string_def Let_def)
  have c': "current_char a' \<noteq> None" and a1: "a1 = advance a'"
    and tok: "token = Token STRING (VStr res) (line a1) (column a)"
    using ok loop r by (auto simp: read_string_def Let_def split: if_splits)
  from read_string_loop_span [of "advance a" "[]" res a'] loop r obtain l where
    l: "res = l" "rest (advance a) = l @ rest a'"
       "current_char a' = None \<or> current_char a' = Some (CHR 0x22)"
    by auto
  have q: "current_char a' = Some (CHR 0x22)"
    using l(3) c' by simp
  have "rest a = (CHR 0x22 # res @ [CHR 0x22]) @ rest a1"
    using rest_step [OF cur] rest_step [OF q] l(1,2) a1 by simp
  moreover have "lexeme_of token (CHR 0x22 # res @ [CHR 0x22])"
    using tok by (simp add: lexeme_of_def)
  ultimately show ?thesis
    using tok by auto
qed

lemma read_char_literal_span:
  assumes cur: "current_char a = Some (CHR 0x27)" and ok: "read_char_literal a = (Inr token, a1)"
  shows "\<exists>l. lexeme_of token l \<and> rest a = l @ rest a1 \<and> tok_type token \<noteq> EOF"
proof -
  obtain c where c: "current_char (advance a) = Some c"
    using ok by (cases "current_char (advance a)") (auto simp: read_char_literal_def Let_def)
  show ?thesis
  proof (cases "c = CHR 0x5C")
    case True
    obtain d where d: "current_char (advance (advance a)) = Some d"
      using ok c True
      by (cases "current_char (advance (advance a))") (auto simp: read_char_literal_def Let_def)
    have q: "current_char (advance (advance (advance a))) = Some (CHR 0x27)"
      and a1: "a1 = advance (advance (advance (advance a)))"
      and tok: "token = Token CHAR_LITERAL (VStr [CHR 0x5C, d]) (line a1) (column a)"
      using ok c d True by (auto simp: read_char_literal_def Let_def split: if_splits)
    have "rest a = (CHR 0x27 # [CHR 0x5C, d] @ [CHR 0x27]) @ rest a1"
      using rest_step [OF cur] rest_step [OF c] rest_step [OF d] rest_step [OF q] True a1
      by simp
    moreover have "lexeme_of token (CHR 0x27 # [CHR 0x5C, d] @ [CHR 0x27])"
      using tok by (simp add: lexeme_of_def)
    ultimately show ?thesis
      using tok by auto
  next
    case False
    have q: "current_char (advance (advance a)) = Some (CHR 0x27)"
      and a1: "a1 = advance (advance (advance a))"
      and tok: "token = Token CHAR_LITERAL (VStr [c]) (line a1) (column a)"
      using ok c False by (auto simp: read_char_literal_def Let_def split: if_splits)
    have "rest a = (CHR 0x27 # [c] @ [CHR 0x27]) @ rest a1"
      using rest_step [OF cur] rest_step [OF c] rest_step [OF q] a1 by simp
    moreover have "lexeme_of token (CHR 0x27 # [c] @ [CHR 0x27])"
      using tok by (simp add: lexeme_of_def)
    ultimately show ?thesis
      using tok by auto
  qed
qed

subsection \<open>What one call of \<^verbatim>\<open>get_next_token\<close> consumes\<close>

lemma peek_advance: "peek a = Some d \<Longrightarrow> current_char (advance a) = Some d"
  by (auto simp: peek_def advance_def split: if_splits)

lemma get_next_token_span:
  "get_next_token a = (Inr token, a1) \<Longrightarrow>
   (tok_type token = EOF \<longrightarrow> interleaved (rest a) [])
   \<and> (tok_type token \<noteq> EOF \<longrightarrow>
        (\<exists>l. lexeme_of token l
            \<and> (\<forall>ls. interleaved (rest a1) ls \<longrightarrow> interleaved (rest a) (l # ls))))"
proof (induction a rule: get_next_token.induct)
  case (1 a)
  show ?case
  proof (cases "current_char a")
    case None
    then show ?thesis
      using "1.prems" by (auto simp: get_next_token_None rest_None il_Nil)
  next
    case (Some c)
    show ?thesis
    proof (cases "isspace c")
      case True
      have "get_next_token (skip_whitespace a) = (Inr token, a1)"
        using "1.prems" by (simp add: get_next_token_space [OF Some True])
      from "1.IH"(1) [OF Some True this]
      have ih: "tok_type token = EOF \<longrightarrow> interleaved (rest (skip_whitespace a)) []"
        "tok_type token \<noteq> EOF \<longrightarrow>
           (\<exists>l. lexeme_of token l
               \<and> (\<forall>ls. interleaved (rest a1) ls \<longrightarrow> interleaved (rest (skip_whitespace a)) (l # ls)))"
        by simp_all
      have up: "interleaved (rest a) ls" if "interleaved (rest (skip_whitespace a)) ls" for ls
        using that rest_skip_whitespace [OF refl, of a] interleaved_spaces by simp
      show ?thesis
        using ih up by blast
    next
      case ns: False
      show ?thesis
      proof (cases "c = CHR ''/'' \<and> (peek a = Some (CHR ''/'') \<or> peek a = Some (CHR ''*''))")
        case True
        then have c: "current_char a = Some (CHR ''/'')"
          and pk: "peek a = Some (CHR ''/'') \<or> peek a = Some (CHR ''*'')"
          using Some by simp_all
        have g: "get_next_token (skip_comment a) = (Inr token, a1)"
          using "1.prems" by (simp add: get_next_token_comment [OF c pk])
        from "1.IH"(2) [OF Some ns True this]
        have ih: "tok_type token = EOF \<longrightarrow> interleaved (rest (skip_comment a)) []"
          "tok_type token \<noteq> EOF \<longrightarrow>
             (\<exists>l. lexeme_of token l
                 \<and> (\<forall>ls. interleaved (rest a1) ls \<longrightarrow> interleaved (rest (skip_comment a)) (l # ls)))"
          by simp_all
        obtain d s where r: "rest a = CHR ''/'' # d # s" and d: "d = CHR ''/'' \<or> d = CHR ''*''"
        proof -
          obtain r' where r': "rest a = CHR ''/'' # r'"
            using current_rest [OF c] by blast
          then have "peek a = (case r' of [] \<Rightarrow> None | d # _ \<Rightarrow> Some d)"
            by (rule rest_peek)
          then obtain d s where "r' = d # s" and "d = CHR ''/'' \<or> d = CHR ''*''"
            using pk by (cases r') auto
          then show ?thesis
            using r' that by blast
        qed
        show ?thesis
        proof (cases "d = CHR ''*'' \<and> \<not> has_close s")
          case True
          then have "rest (skip_comment a) = []"
            using rest_skip_comment_block [of a s] r no_close_after by simp
          then have "current_char (skip_comment a) = None"
            by (simp add: rest_Nil_iff)
          then have "tok_type token = EOF"
            using g by (auto simp: get_next_token_None)
          moreover have "interleaved (rest a) []"
            using True r interleaved_open_block by simp
          ultimately show ?thesis by simp
        next
          case False
          have up: "interleaved (rest a) ls" if "interleaved (rest (skip_comment a)) ls" for ls
          proof (cases "d = CHR ''/''")
            case True
            then show ?thesis
              using that r rest_skip_comment_line [of a s] interleaved_line by simp
          next
            case nl: False
            then have "d = CHR ''*''" and "has_close s"
              using d False by simp_all
            then show ?thesis
              using that r rest_skip_comment_block [of a s] interleaved_block by simp
          qed
          show ?thesis
            using ih up by blast
        qed
      next
        case nc: False
        note eq = get_next_token_lexeme [OF Some ns nc]
        have "\<exists>l. lexeme_of token l \<and> rest a = l @ rest a1 \<and> tok_type token \<noteq> EOF"
        proof -
          consider (ident) "isalpha c \<or> c = CHR ''_''"
            | (num) "\<not> (isalpha c \<or> c = CHR ''_'')" "isdigit c"
            | (str) "\<not> (isalpha c \<or> c = CHR ''_'')" "\<not> isdigit c" "c = CHR 0x22"
            | (chr) "\<not> (isalpha c \<or> c = CHR ''_'')" "\<not> isdigit c" "c \<noteq> CHR 0x22" "c = CHR 0x27"
            | (op) "\<not> (isalpha c \<or> c = CHR ''_'')" "\<not> isdigit c" "c \<noteq> CHR 0x22" "c \<noteq> CHR 0x27"
            by blast
          then show ?thesis
          proof cases
            case ident
            then have "token = fst (read_identifier a)" and "a1 = snd (read_identifier a)"
              using eq "1.prems" by (auto split: prod.splits)
            then show ?thesis
              using read_identifier_span [OF Some ident] by simp
          next
            case num
            then have "read_number a = (Inr token, a1)"
              using eq "1.prems" by simp
            then show ?thesis
              using read_number_span [OF Some num(2)] by simp
          next
            case str
            then have "read_string a = (Inr token, a1)"
              using eq "1.prems" by simp
            then show ?thesis
              using read_string_span [of a token a1] Some str by simp
          next
            case chr
            then have "read_char_literal a = (Inr token, a1)"
              using eq "1.prems" by simp
            then show ?thesis
              using read_char_literal_span [of a token a1] Some chr by simp
          next
            case op
            show ?thesis
            proof (cases "c \<in> {CHR ''='', CHR ''!'', CHR ''<'', CHR ''>''} \<and> peek a = Some (CHR ''='')")
              case True
              then obtain ty where ty: "operators [c, CHR ''=''] = Some ty"
                using operators_two_chars [of c] by auto
              have tok: "token = Token ty (VStr [c, CHR ''='']) (line a1) (column a1 - 2)"
                and a1: "a1 = advance (advance a)"
                using eq op True ty "1.prems" by (auto simp: Let_def)
              have "current_char (advance a) = Some (CHR ''='')"
                using True peek_advance by simp
              then have "rest a = [c, CHR ''=''] @ rest a1"
                using rest_step [OF Some] rest_step [of "advance a" "CHR ''=''"] a1 by simp
              moreover have "lexeme_of token [c, CHR ''='']"
                using tok ty operators_types [OF ty] by (auto simp: lexeme_of_def)
              moreover have "tok_type token \<noteq> EOF"
                using tok operators_types [OF ty] by auto
              ultimately show ?thesis by blast
            next
              case False
              show ?thesis
              proof (cases "operators [c]")
                case None
                then show ?thesis
                  using eq op False "1.prems" by auto
              next
                case (Some ty)
                have tok: "token = Token ty (VStr [c]) (line a1) (column a1 - 1)"
                  and a1: "a1 = advance a"
                  using eq op False Some "1.prems" by (auto simp: Let_def)
                have "rest a = [c] @ rest a1"
                  using rest_step [OF \<open>current_char a = Some c\<close>] a1 by simp
                moreover have "lexeme_of token [c]"
                  using tok Some operators_types [OF Some] by (auto simp: lexeme_of_def)
                moreover have "tok_type token \<noteq> EOF"
                  using tok operators_types [OF Some] by auto
                ultimately show ?thesis by blast
              qed
            qed
          qed
        qed
        then obtain l where l: "lexeme_of token l" "rest a = l @ rest a1" "tok_type token \<noteq> EOF"
          by blast
        have "interleaved (rest a) (l # ls)" if "interleaved (rest a1) ls" for ls
          using il_lexeme [OF that, of l] l(2) by simp
        then show ?thesis
          using l(1,3) by blast
      qed
    qed
  qed
qed

lemma tokenize_loop_span:
  "tokenize_loop a tokens = (Inr res, a1) \<Longrightarrow>
   \<exists>new ls. res = tokens @ new \<and> new \<noteq> [] \<and> tok_type (last new) = EOF
           \<and> list_all2 lexeme_of (butlast new) ls \<and> interleaved (rest a) ls"
proof (induction a tokens rule: tokenize_loop.induct)
  case (1 a tokens)
  obtain r a' where g: "get_next_token a = (r, a')"
    by (cases "get_next_token a")
  show ?case
  proof (cases r)
    case (Inl e)
    then show ?thesis
      using g "1.prems" by (simp add: tokenize_loop_raise)
  next
    case (Inr token)
    then have g': "get_next_token a = (Inr token, a')"
      using g by simp
    show ?thesis
    proof (cases "tok_type token = EOF")
      case True
      then have "res = tokens @ [token]"
        using g' "1.prems" by (simp add: tokenize_loop_EOF)
      moreover have "interleaved (rest a) []"
        using get_next_token_span [OF g'] True by simp
      ultimately show ?thesis
        using True by auto
    next
      case False
      have "tokenize_loop a' (tokens @ [token]) = (Inr res, a1)"
        using g' False "1.prems" by (simp add: tokenize_loop_step)
      from "1.IH" [OF g [symmetric] Inr False this] obtain new ls where
        n: "res = (tokens @ [token]) @ new" "new \<noteq> []" "tok_type (last new) = EOF"
           "list_all2 lexeme_of (butlast new) ls" "interleaved (rest a') ls"
        by blast
      obtain l where l: "lexeme_of token l" "interleaved (rest a) (l # ls)"
        using get_next_token_span [OF g'] False n(5) by blast
      have "res = tokens @ (token # new)" and "token # new \<noteq> []"
        and "tok_type (last (token # new)) = EOF"
        and "list_all2 lexeme_of (butlast (token # new)) (l # ls)"
        using n l(1) by simp_all
      then show ?thesis
        using l(2) by blast
    qed
  qed
qed

lemma line_skip_whitespace:
  "rest a = s \<Longrightarrow>
   line (skip_whitespace a) = line a + int (count_list (takeWhile isspace s) (CHR 0x0A))"
proof (induction s arbitrary: a)
  case Nil
  then show ?case by (simp add: rest_Nil_iff skip_whitespace_None)
next
  case (Cons c r)
  have cur: "current_char a = Some c"
    using Cons.prems by (rule rest_current)
  show ?case
  proof (cases "isspace c")
    case True
    let ?b = "advance (if c = CHR 0x0A then a\<lparr>line := line a + 1, column := 1\<rparr> else a)"
    have "rest ?b = r"
      using Cons.prems by (auto intro: rest_advance)
    then have "line (skip_whitespace ?b) = line ?b + int (count_list (takeWhile isspace r) (CHR 0x0A))"
      by (rule Cons.IH)
    then show ?thesis
      using True by (simp add: skip_whitespace_step [OF cur True])
  next
    case False
    then show ?thesis
      by (simp add: skip_whitespace_stop [OF cur False])
  qed
qed

section \<open>Properties of the cursor\<close>

text \<open>
  C5, as the code has it. \<^verbatim>\<open>advance\<close> never changes \<open>line\<close>. While a character
  remains at \<open>pos\<close> it makes that character current, moves \<open>pos\<close> on by one and adds
  one to \<open>column\<close>, whatever the character left behind was; at the end of the input
  it sets the current character to the end sentinel and leaves \<open>pos\<close> and \<open>column\<close>
  alone. The line increment and the reset of \<open>column\<close> to 1 belong to the callers:
  \<^verbatim>\<open>skip_whitespace\<close> and the multi-line loop of \<^verbatim>\<open>skip_comment\<close> perform them
  on a current newline before they call \<^verbatim>\<open>advance\<close>, so that \<^verbatim>\<open>skip_whitespace\<close>
  raises \<open>line\<close> by the number of newlines it skips.
\<close>

theorem advance_leaves_line_to_callers:
  "line (advance a) = line a
   \<and> source (advance a) = source a
   \<and> symbol_table (advance a) = symbol_table a
   \<and> (pos a < length (source a) \<longrightarrow>
        current_char (advance a) = Some (source a ! pos a)
        \<and> pos (advance a) = pos a + 1
        \<and> column (advance a) = column a + 1)
   \<and> (length (source a) \<le> pos a \<longrightarrow>
        current_char (advance a) = None
        \<and> pos (advance a) = pos a
        \<and> column (advance a) = column a)
   \<and> (current_char a = Some (CHR 0x0A) \<longrightarrow>
        skip_whitespace a = skip_whitespace (advance (a\<lparr>line := line a + 1, column := 1\<rparr>))
        \<and> skip_comment_multi a
            = skip_comment_multi (advance (a\<lparr>line := line a + 1, column := 1\<rparr>)))
   \<and> line (skip_whitespace a)
       = line a + int (count_list (takeWhile isspace (rest a)) (CHR 0x0A))"
proof -
  have "skip_whitespace a = skip_whitespace (advance (a\<lparr>line := line a + 1, column := 1\<rparr>))"
    if "current_char a = Some (CHR 0x0A)"
    using skip_whitespace_step [OF that] by (simp add: isspace_def)
  moreover have "skip_comment_multi a
      = skip_comment_multi (advance (a\<lparr>line := line a + 1, column := 1\<rparr>))"
    if "current_char a = Some (CHR 0x0A)"
    using skip_comment_multi_step [OF that] by simp
  ultimately show ?thesis
    using line_skip_whitespace [OF refl, of a] by (simp add: advance_def)
qed

theorem advance_leaves_line_to_callers_witness:
  "line (advance (init_scanner ''a\<newline>b'' new_LexicalAnalyzer)) = 1
   \<and> current_char (advance (init_scanner ''a\<newline>b'' new_LexicalAnalyzer)) = Some (CHR 0x0A)
   \<and> pos (advance (init_scanner ''a\<newline>b'' new_LexicalAnalyzer)) = 2
   \<and> column (advance (init_scanner ''a\<newline>b'' new_LexicalAnalyzer)) = 3
   \<and> line (skip_whitespace (advance (init_scanner ''a\<newline>b'' new_LexicalAnalyzer))) = 2"
proof -
  let ?A = "init_scanner ''a\<newline>b'' new_LexicalAnalyzer"
  have r: "rest (advance ?A) = ''\<newline>b''"
    using rest_advance [of ?A "CHR ''a''" "''\<newline>b''"] by (simp add: rest_init_scanner)
  have fields: "line (advance ?A) = 1 \<and> current_char (advance ?A) = Some (CHR 0x0A)
                \<and> pos (advance ?A) = 2 \<and> column (advance ?A) = 3"
    using advance_leaves_line_to_callers [of ?A]
    by (simp add: init_scanner_def advance_def new_LexicalAnalyzer_def)
  have "line (skip_whitespace (advance ?A))
          = line (advance ?A) + int (count_list (takeWhile isspace (rest (advance ?A))) (CHR 0x0A))"
    using advance_leaves_line_to_callers [of "advance ?A"] by blast
  then have "line (skip_whitespace (advance ?A)) = 2"
    using r by (simp add: isspace_def)
  then show ?thesis
    using fields by simp
qed

text \<open>
  C5 as stated fails: with the newline of \<open>''\<newline>x''\<close> current, \<^verbatim>\<open>advance\<close> makes
  \<open>x\<close> current and leaves \<open>line\<close> at 1 and \<open>column\<close> at 3, where the claim promises
  line 2 and column 1.
\<close>

theorem advance_newline_counterexample:
  "current_char (init_scanner ''\<newline>x'' new_LexicalAnalyzer) = Some (CHR 0x0A)
   \<and> current_char (advance (init_scanner ''\<newline>x'' new_LexicalAnalyzer)) = Some (CHR ''x'')
   \<and> line (advance (init_scanner ''\<newline>x'' new_LexicalAnalyzer)) = 1
   \<and> column (advance (init_scanner ''\<newline>x'' new_LexicalAnalyzer)) = 3"
  by (simp add: init_scanner_def advance_def new_LexicalAnalyzer_def)

section \<open>Properties of the driver\<close>

text \<open>
  C2, as the code has it. When the scanner raises, the loop stops at once, whatever
  tokens were collected; \<^verbatim>\<open>tokenize\<close> then prints one line, \<^verbatim>\<open>Lexical Error:\<close>
  followed by the message, line and column of the error, and returns the empty list.
  The error itself does not reach the caller; what the caller can tell is that an error
  occurred, since a call that succeeds prints nothing and returns at least the \<open>EOF\<close>
  token.
\<close>

theorem tokenize_prints_error_returns_empty:
  "(get_next_token b = (Inl e, b1) \<longrightarrow> tokenize_loop b tokens = (Inl e, b1))
   \<and> (tokenize_loop (init_scanner src a) [] = (Inl e, a1) \<longrightarrow>
        tokenize src a =
          ([],
           [''Lexical Error: '' @ message e @ '' at line '' @ str_int (err_line e)
              @ '', column '' @ str_int (err_column e)],
           a1))
   \<and> (tokenize_loop (init_scanner src a) [] = (Inr result, a1) \<longrightarrow>
        tokenize src a = (result, [], a1) \<and> result \<noteq> [])"
proof -
  have "result \<noteq> []" if "tokenize_loop (init_scanner src a) [] = (Inr result, a1)"
    using tokenize_loop_span [OF that] by auto
  then show ?thesis
    by (simp add: tokenize_loop_raise tokenize_def str_error_def)
qed

theorem tokenize_prints_error_returns_empty_witness:
  "tokenize ''@'' new_LexicalAnalyzer =
     ([], [''Lexical Error: Invalid character: @ at line 1, column 2''],
      snd (tokenize_loop (init_scanner ''@'' new_LexicalAnalyzer) []))"
proof -
  have "fst (tokenize_loop (init_scanner ''@'' new_LexicalAnalyzer) [])
          = Inl (LexicalError ''Invalid character: @'' 1 2)"
    by code_simp
  then have "tokenize_loop (init_scanner ''@'' new_LexicalAnalyzer) []
          = (Inl (LexicalError ''Invalid character: @'' 1 2),
             snd (tokenize_loop (init_scanner ''@'' new_LexicalAnalyzer) []))"
    by (metis prod.collapse)
  moreover have "str_int 1 = ''1''" and "str_int 2 = ''2''"
    by code_simp+
  ultimately show ?thesis
    using tokenize_prints_error_returns_empty
            [where src = "''@''" and a = new_LexicalAnalyzer
               and e = "LexicalError ''Invalid character: @'' 1 2"
               and ?a1.0 = "snd (tokenize_loop (init_scanner ''@'' new_LexicalAnalyzer) [])"]
    by simp
qed

text \<open>
  C2 as stated fails: an invalid character and a second decimal point raise different
  errors at different columns, and \<^verbatim>\<open>tokenize\<close> returns the same empty list for both.
\<close>

theorem tokenize_error_counterexample:
  "fst (tokenize_loop (init_scanner ''@'' new_LexicalAnalyzer) [])
     = Inl (LexicalError ''Invalid character: @'' 1 2)
   \<and> fst (tokenize_loop (init_scanner ''1.2.3'' new_LexicalAnalyzer) [])
     = Inl (LexicalError ''Invalid float literal'' 1 5)
   \<and> fst (tokenize ''@'' new_LexicalAnalyzer) = []
   \<and> fst (tokenize ''1.2.3'' new_LexicalAnalyzer) = []"
  by code_simp

section \<open>Token positions\<close>

text \<open>
  C4 at concrete inputs. The identifier of \<open>''x''\<close>, first character of the source, is
  reported in column 2. For \<open>''// comment\<newline>int y;''\<close> the identifier \<open>y\<close> is on
  line 2 as claimed, in column 6 where its 1-based column is 5; the semicolon after it is
  reported in column 6 as well. A \<open>+\<close> that ends the input is reported in column 1, the
  same \<open>+\<close> followed by a blank in column 2.
\<close>

theorem token_columns_evaluated:
  "fst (tokenize ''x'' new_LexicalAnalyzer)
     = [Token IDENTIFIER (VStr ''x'') 1 2, Token EOF VNone 1 2]
   \<and> fst (tokenize ''// comment\<newline>int y;'' new_LexicalAnalyzer)
     = [Token INT_T (VStr ''int'') 2 2, Token IDENTIFIER (VStr ''y'') 2 6,
        Token SEMICOLON (VStr '';'') 2 6, Token EOF VNone 2 7]
   \<and> fst (tokenize ''+'' new_LexicalAnalyzer)
     = [Token PLUS (VStr ''+'') 1 1, Token EOF VNone 1 2]
   \<and> fst (tokenize ''+ '' new_LexicalAnalyzer)
     = [Token PLUS (VStr ''+'') 1 2, Token EOF VNone 1 3]"
  by code_simp

section \<open>Whitespace and comments only\<close>

text \<open>
  C8. For every source text made of whitespace and well-formed comments only,
  \<^verbatim>\<open>tokenize\<close> prints nothing and returns exactly one token, the \<open>EOF\<close> token.
\<close>

theorem tokenize_blank_text:
  assumes "blank_text src"
  shows "map tok_type (fst (tokenize src a)) = [EOF]
         \<and> map tok_value (fst (tokenize src a)) = [VNone]
         \<and> fst (snd (tokenize src a)) = []"
proof -
  have "blank_text (rest (init_scanner src a))"
    using assms by (simp add: rest_init_scanner)
  then obtain a1 where
    "get_next_token (init_scanner src a) = (Inr (Token EOF VNone (line a1) (column a1)), a1)"
    using get_next_token_blank by blast
  then have "tokenize_loop (init_scanner src a) []
               = (Inr [Token EOF VNone (line a1) (column a1)], a1)"
    by (simp add: tokenize_loop_EOF)
  then show ?thesis
    by (simp add: tokenize_def)
qed

theorem tokenize_blank_text_witness:
  "map tok_type (fst (tokenize '' // c\<newline>/* x */'' new_LexicalAnalyzer)) = [EOF]
   \<and> map tok_value (fst (tokenize '' // c\<newline>/* x */'' new_LexicalAnalyzer)) = [VNone]
   \<and> fst (snd (tokenize '' // c\<newline>/* x */'' new_LexicalAnalyzer)) = []"
proof -
  have "blank_text ''/* x */''"
    using blank_block_comment [of "'' x ''" "[]"] by (simp add: blank_Nil)
  then have "blank_text ''// c\<newline>/* x */''"
    using blank_line_comment [of "'' c''" "''/* x */''"] by simp
  then have "blank_text '' // c\<newline>/* x */''"
    using blank_space [of "CHR '' ''" "''// c\<newline>/* x */''"] by (simp add: isspace_def)
  then show ?thesis
    by (rule tokenize_blank_text)
qed

section \<open>Numbers with a trailing decimal point\<close>



section \<open>String literals and the line counter\<close>

text \<open>
  C10, as the code has it. \<^verbatim>\<open>read_string\<close> never changes the line counter: the
  scanner leaves a string literal with \<open>line\<close> as it was at the opening quote, and a
  \<open>STRING\<close> token carries that line. A literal whose body has no quote and no
  backslash, raw newlines allowed, is read without error up to its closing quote; the
  body, newlines included, is the value of the token. Scanning resumes after the closing
  quote on the opening line; a newline skipped later as whitespace increments the counter
  again.
\<close>

theorem read_string_keeps_line_counter:
  "line (snd (read_string a)) = line a
   \<and> (\<forall>token. fst (read_string a) = Inr token \<longrightarrow> tok_line token = line a)
   \<and> ((\<forall>c\<in>set body. c \<noteq> CHR 0x22 \<and> c \<noteq> CHR 0x5C)
        \<and> rest a = CHR 0x22 # body @ CHR 0x22 # r \<longrightarrow>
        get_next_token a = read_string a
        \<and> fst (read_string a) = Inr (Token STRING (VStr body) (line a) (column a))
        \<and> rest (snd (read_string a)) = r)"
proof (intro conjI allI impI)
  show "line (snd (read_string a)) = line a"
    using read_string_keeps [of a "fst (read_string a)" "snd (read_string a)"] by simp
next
  fix token
  assume "fst (read_string a) = Inr token"
  then have "read_string a = (Inr token, snd (read_string a))"
    by (metis prod.collapse)
  then show "tok_line token = line a"
    using read_string_keeps by blast
next
  assume h: "(\<forall>c\<in>set body. c \<noteq> CHR 0x22 \<and> c \<noteq> CHR 0x5C)
             \<and> rest a = CHR 0x22 # body @ CHR 0x22 # r"
  then have cur: "current_char a = Some (CHR 0x22)"
    by (simp add: rest_current)
  show "get_next_token a = read_string a"
    using get_next_token_lexeme [OF cur]
    by (simp add: isspace_def isalpha_def isdigit_def)
  obtain a1 where "read_string a = (Inr (Token STRING (VStr body) (line a) (column a)), a1)"
    and "rest a1 = r"
    using read_string_plain [of body a r] h by blast
  then show "fst (read_string a) = Inr (Token STRING (VStr body) (line a) (column a))"
    and "rest (snd (read_string a)) = r"
    by simp_all
qed

theorem read_string_keeps_line_counter_witness:
  "fst (read_string (init_scanner (CHR 0x22 # ''a\<newline>b'' @ CHR 0x22 # '' x'') new_LexicalAnalyzer))
     = Inr (Token STRING (VStr ''a\<newline>b'') 1 2)
   \<and> line (snd (read_string
        (init_scanner (CHR 0x22 # ''a\<newline>b'' @ CHR 0x22 # '' x'') new_LexicalAnalyzer))) = 1
   \<and> rest (snd (read_string
        (init_scanner (CHR 0x22 # ''a\<newline>b'' @ CHR 0x22 # '' x'') new_LexicalAnalyzer))) = '' x''"
  using read_string_keeps_line_counter
          [of "init_scanner (CHR 0x22 # ''a\<newline>b'' @ CHR 0x22 # '' x'') new_LexicalAnalyzer"
              "''a\<newline>b''" "'' x''"]
  by (simp add: rest_init_scanner column_init_scanner)

text \<open>
  C10 as stated fails in its last clause: after the two-line literal of the source below,
  the identifier \<open>x\<close> follows a newline outside the literal and is reported on line 2,
  not on the opening line 1 of the literal.
\<close>

theorem token_after_string_counterexample:
  "fst (tokenize (CHR 0x22 # ''a\<newline>b'' @ CHR 0x22 # ''\<newline>x'') new_LexicalAnalyzer)
     = [Token STRING (VStr ''a\<newline>b'') 1 2, Token IDENTIFIER (VStr ''x'') 2 2,
        Token EOF VNone 2 2]"
  by code_simp

section \<open>Escape sequences\<close>




section \<open>The occurrence table\<close>

text \<open>
  C6. Whenever \<^verbatim>\<open>get_next_token\<close> returns an \<open>IDENTIFIER\<close> token with lexeme \<open>w\<close>,
  \<open>w\<close> is not a keyword and the token's location \<open>L\<close> is recorded: when the table had
  no entry for \<open>w\<close>, the entry created has \<open>first_seen = L\<close> and the occurrence list
  \<open>[L]\<close>; when it had one, \<open>L\<close> is appended to its list and \<open>first_seen\<close> stays.
  No other entry changes, and a call that returns anything but an \<open>IDENTIFIER\<close> token
  leaves the whole table as it was.
\<close>

theorem identifier_occurrence_recorded:
  assumes "get_next_token a = (Inr token, a1)"
    and "tok_type token = IDENTIFIER"
    and "tok_value token = VStr w"
  shows "keywords_dict w = None
     \<and> (symbol_table a w = None \<longrightarrow>
          symbol_table a1 w
            = Some \<lparr>first_seen = (tok_line token, tok_column token),
                    occurrences = [(tok_line token, tok_column token)]\<rparr>)
     \<and> (\<forall>e. symbol_table a w = Some e \<longrightarrow>
          symbol_table a1 w
            = Some \<lparr>first_seen = first_seen e,
                    occurrences = occurrences e @ [(tok_line token, tok_column token)]\<rparr>)
     \<and> (\<forall>v. v \<noteq> w \<longrightarrow> symbol_table a1 v = symbol_table a v)
     \<and> ((\<forall>token'. fst (get_next_token b) = Inr token' \<longrightarrow> tok_type token' \<noteq> IDENTIFIER) \<longrightarrow>
          symbol_table (snd (get_next_token b)) = symbol_table b)"
proof -
  let ?L = "(tok_line token, tok_column token)"
  have kw: "keywords_dict w = None"
    using get_next_token_identifier [of a token] assms by auto
  have "symbol_table a1 = table_after (Inr token) (symbol_table a)"
    using symbol_table_get_next_token [of a] assms(1) by simp
  then have tbl: "symbol_table a1 = record_identifier w ?L (symbol_table a)"
    using assms(2,3) by (simp add: table_after_def)
  have new: "symbol_table a1 w = Some \<lparr>first_seen = ?L, occurrences = [?L]\<rparr>"
    if "symbol_table a w = None"
    using tbl record_identifier_new [of "symbol_table a" w ?L] that by simp
  have old: "symbol_table a1 w
               = Some \<lparr>first_seen = first_seen e, occurrences = occurrences e @ [?L]\<rparr>"
    if "symbol_table a w = Some e" for e
    using tbl record_identifier_old [of "symbol_table a" w e ?L] that by simp
  have others: "symbol_table a1 v = symbol_table a v" if "v \<noteq> w" for v
  proof (cases "symbol_table a w")
    case None
    then show ?thesis
      using tbl record_identifier_new [of "symbol_table a" w ?L] that by simp
  next
    case (Some e)
    then show ?thesis
      using tbl record_identifier_old [of "symbol_table a" w e ?L] that by simp
  qed
  have quiet: "symbol_table (snd (get_next_token b)) = symbol_table b"
    if "\<forall>token'. fst (get_next_token b) = Inr token' \<longrightarrow> tok_type token' \<noteq> IDENTIFIER"
    using that symbol_table_get_next_token [of b]
          table_after_other [of "fst (get_next_token b)" "symbol_table b"]
    by simp
  show ?thesis
    using kw new old others quiet by blast
qed

theorem identifier_occurrence_recorded_witness:
  "symbol_table (snd (get_next_token (init_scanner ''x'' new_LexicalAnalyzer))) ''x''
     = Some \<lparr>first_seen = (1, 2), occurrences = [(1, 2)]\<rparr>
   \<and> symbol_table
       (snd (get_next_token
         (init_scanner '' x'' (snd (get_next_token (init_scanner ''x'' new_LexicalAnalyzer))))))
       ''x''
     = Some \<lparr>first_seen = (1, 2), occurrences = [(1, 2), (1, 3)]\<rparr>"
proof -
  let ?A = "init_scanner ''x'' new_LexicalAnalyzer"
  let ?B = "init_scanner '' x'' (snd (get_next_token ?A))"
  have "fst (get_next_token ?A) = Inr (Token IDENTIFIER (VStr ''x'') 1 2)"
    by code_simp
  then have gA: "get_next_token ?A = (Inr (Token IDENTIFIER (VStr ''x'') 1 2), snd (get_next_token ?A))"
    by (metis prod.collapse)
  have first: "symbol_table (snd (get_next_token ?A)) ''x''
                 = Some \<lparr>first_seen = (1, 2), occurrences = [(1, 2)]\<rparr>"
    using identifier_occurrence_recorded [OF gA, of "''x''"]
    by (simp add: new_LexicalAnalyzer_def)
  have "fst (get_next_token ?B) = Inr (Token IDENTIFIER (VStr ''x'') 1 3)"
    by code_simp
  then have gB: "get_next_token ?B = (Inr (Token IDENTIFIER (VStr ''x'') 1 3), snd (get_next_token ?B))"
    by (metis prod.collapse)
  have "symbol_table (snd (get_next_token ?B)) ''x''
          = Some \<lparr>first_seen = (1, 2), occurrences = [(1, 2), (1, 3)]\<rparr>"
    using identifier_occurrence_recorded [OF gB, of "''x''"] first
    by simp
  then show ?thesis
    using first by simp
qed

section \<open>Tokenizing again with the same analyzer\<close>




section \<open>Lexemes and the source\<close>



end
